theory Spec2Isabelle
  imports Main
begin

section \<open>Values shared by the value-set pipeline\<close>

text \<open>
  A JavaScript exception as the pipeline observes it: every value thrown is an
  \<open>Error\<close> object with a \<open>message\<close>; an HTTP client failure additionally carries the
  \<open>response\<close>, of which the status code and the body \<open>data\<close> are read. The body
  is any JSON value the service sends; the pipeline reads its truthiness (\<open>None\<close> is
  a falsy body) and its member \<open>issue\<close>: falsy or absent (\<open>NoIssues\<close>), an array
  (\<open>IssueList\<close>), or a truthy value without a \<open>map\<close> method, such as a string or an
  object (\<open>NotAList\<close>). Of an element of the array the member \<open>diagnostics\<close> is
  read, which is a string or undefined (\<open>Issue\<close>); reading it from \<open>null\<close> throws
  (\<open>NullIssue\<close>).
\<close>

datatype issue = Issue "string option" | NullIssue

datatype issues = NoIssues | IssueList "issue list" | NotAList

record httpresp =
  status :: nat
  data :: "issues option"

datatype error = Error (message: string) (response: "httpresp option")

section \<open>Identifier normalizer\<close>

text \<open>
  \<^verbatim>\<open>
  function normalizeVsacId(id: string): string {
    const match = id.match(/([0-9]+\.[0-9.]+)/);
    if (!match) throw new Error(`Could not extract OID from '${id}'`);
    return match[1];
  }
  \<close>
  The two character classes of the pattern.
\<close>

definition is_digit :: "char \<Rightarrow> bool" where
  "is_digit c = (c \<in> set ''0123456789'')"

definition is_digit_or_dot :: "char \<Rightarrow> bool" where
  "is_digit_or_dot c = (is_digit c \<or> c = CHR ''.'')"

text \<open>
  The pattern \<open>[0-9]+\.[0-9.]+\<close> tried at the head of the input. Both quantifiers
  are greedy; since a digit is never a dot, giving back digits of the first run can
  never make the literal dot match, so the first run is the whole run of digits, and
  the second run is the longest run of digits and dots after the dot.
\<close>

definition match_here :: "string \<Rightarrow> string option" where
  "match_here s =
     (let ds = takeWhile is_digit s; r = dropWhile is_digit s in
      if ds = [] then None
      else case r of
             [] \<Rightarrow> None
           | c # r' \<Rightarrow>
               if c \<noteq> CHR ''.'' then None
               else let t = takeWhile is_digit_or_dot r' in
                    if t = [] then None else Some (ds @ c # t))"

text \<open>
  \<open>String.prototype.match\<close> with a non-global pattern: the pattern is tried at every
  start position from the left, and the first position where it matches wins.
\<close>

fun regex_match :: "string \<Rightarrow> string option" where
  "regex_match [] = match_here []"
| "regex_match (c # cs) =
     (case match_here (c # cs) of
        Some m \<Rightarrow> Some m
      | None \<Rightarrow> regex_match cs)"

definition normalizeVsacId :: "string \<Rightarrow> error + string" where
  "normalizeVsacId id' =
     (case regex_match id' of
        None \<Rightarrow> Inl (Error (''Could not extract OID from '' @ [CHR 0x27] @ id' @ [CHR 0x27]) None)
      | Some m \<Rightarrow> Inr m)"

text \<open>
  The words of the specification: a dotted-numeric string is two or more non-empty
  runs of digits separated by single dots.
\<close>

fun split_dots :: "string \<Rightarrow> string list" where
  "split_dots [] = [[]]"
| "split_dots (c # cs) =
     (if c = CHR ''.'' then [] # split_dots cs
      else case split_dots cs of
             [] \<Rightarrow> [[c]]
           | p # ps \<Rightarrow> (c # p) # ps)"

definition dotted_numeric :: "string \<Rightarrow> bool" where
  "dotted_numeric s =
     (let ps = split_dots s in
      2 \<le> length ps \<and> list_all (\<lambda>p. p \<noteq> [] \<and> list_all is_digit p) ps)"

text \<open>The language of the pattern, stated without reference to the matcher.\<close>

definition oid_pattern :: "string \<Rightarrow> bool" where
  "oid_pattern m =
     (\<exists>ds t. m = ds @ CHR ''.'' # t \<and> ds \<noteq> [] \<and> (\<forall>c \<in> set ds. is_digit c)
        \<and> t \<noteq> [] \<and> (\<forall>c \<in> set t. is_digit_or_dot c))"

section \<open>Resources, files and the network\<close>

text \<open>
  A ValueSet resource as far as the pipeline reads it: \<open>version\<close>,
  \<open>expansion.identifier\<close>, \<open>expansion.total\<close> and \<open>expansion.contains\<close>; every
  field may be absent. The members of \<open>contains\<close> are opaque to the pipeline.
\<close>

type_synonym item = string

record expansion =
  exp_identifier :: "string option"
  exp_total :: "int option"
  exp_contains :: "item list option"

record valueset =
  vs_id :: "string option"
  vs_version :: "string option"
  vs_expansion :: "expansion option"

text \<open>
  The effects of the pipeline, in the order in which they happen. \<open>NetGet\<close> is a
  \<open>client.get\<close> on the vocabulary service, \<open>NetPost\<close> an \<open>axios.post\<close> of the
  listed resources to the downstream store, \<open>Sleep\<close> a \<open>setTimeout\<close> wait in
  milliseconds, \<open>FileRead\<close>/\<open>FileWrite\<close> the synchronous file operations (a write with
  the content written), and the
  console events the lines printed.
\<close>

datatype event =
    NetGet string
  | NetPost string "valueset list"
  | Sleep nat
  | FileRead string
  | FileWrite string valueset
  | ConsoleLog string
  | ConsoleError string

text \<open>
  The world the command runs in: the file system (file contents are the JSON values
  written, so \<open>JSON.parse\<close> of \<open>JSON.stringify\<close> is the identity; a response that
  returns and a cache file that exists hold a ValueSet object), the paths at
  which a write raises, the vocabulary service and the downstream store (each a
  function of the number of network calls made before, so that a service may answer
  the same request differently over time), and the effects so far.
\<close>

record world =
  files :: "string \<rightharpoonup> valueset"
  write_fails :: "string \<Rightarrow> bool"
  server :: "nat \<Rightarrow> string \<Rightarrow> error + valueset"
  hapi :: "nat \<Rightarrow> string \<Rightarrow> valueset list \<Rightarrow> error option"
  trace :: "event list"

fun is_net :: "event \<Rightarrow> bool" where
  "is_net (NetGet u) = True"
| "is_net (NetPost u b) = True"
| "is_net e = False"

fun is_write :: "event \<Rightarrow> bool" where
  "is_write (FileWrite f c) = True"
| "is_write e = False"

definition net_calls :: "world \<Rightarrow> nat" where
  "net_calls w = length (filter is_net (trace w))"

definition emit :: "event \<Rightarrow> world \<Rightarrow> world" where
  "emit e w = w\<lparr>trace := trace w @ [e]\<rparr>"

definition http_get :: "string \<Rightarrow> world \<Rightarrow> (error + valueset) \<times> world" where
  "http_get url w = (server w (net_calls w) url, emit (NetGet url) w)"

definition writeFileSync :: "string \<Rightarrow> valueset \<Rightarrow> world \<Rightarrow> error + world" where
  "writeFileSync file content w =
     (if write_fails w file then Inl (Error (''EACCES: permission denied, open '' @ file) None)
      else Inr (emit (FileWrite file content) (w\<lparr>files := (files w)(file \<mapsto> content)\<rparr>)))"

text \<open>JavaScript truthiness of an optional string: absent and empty are falsy.\<close>

definition truthy :: "string option \<Rightarrow> bool" where
  "truthy s = (case s of None \<Rightarrow> False | Some x \<Rightarrow> x \<noteq> [])"

text \<open>\<open>a || b\<close> on an optional string and a string.\<close>

definition or_else :: "string option \<Rightarrow> string \<Rightarrow> string" where
  "or_else s d = (case s of None \<Rightarrow> d | Some x \<Rightarrow> if x = [] then d else x)"

text \<open>\<open>String(n)\<close> for a non-negative integer.\<close>

definition digit_char :: "nat \<Rightarrow> char" where
  "digit_char n = ''0123456789'' ! n"

fun string_of_nat :: "nat \<Rightarrow> string" where
  "string_of_nat n =
     (if n < 10 then [digit_char n] else string_of_nat (n div 10) @ [digit_char (n mod 10)])"

text \<open>
  \<open>encodeURIComponent\<close> on a string held as its UTF-8 bytes: the unreserved
  characters stay, every other byte becomes \<open>%XX\<close>.
\<close>

definition unreserved :: "char \<Rightarrow> bool" where
  "unreserved c =
     (c \<in> set ''ABCDEFGHIJKLMNOPQRSTUVWXYZabcdefghijklmnopqrstuvwxyz0123456789-_.!~*()''
      \<or> c = CHR 0x27)"

definition hex_char :: "nat \<Rightarrow> char" where
  "hex_char n = ''0123456789ABCDEF'' ! n"

definition encodeURIComponent :: "string \<Rightarrow> string" where
  "encodeURIComponent s =
     concat (map (\<lambda>c. if unreserved c then [c]
                        else [CHR ''%'', hex_char (of_char c div 16), hex_char (of_char c mod 16)]) s)"

fun join :: "string \<Rightarrow> string list \<Rightarrow> string" where
  "join sep [] = []"
| "join sep [x] = x"
| "join sep (x # y # ys) = x @ sep @ join sep (y # ys)"

text \<open>
  \<open>path.join\<close> of two strings, as Node defines it for POSIX paths: the non-empty
  arguments are joined by a slash and the result is normalized. Normalization splits
  the path at the slashes, drops the empty and the \<open>.\<close> segments, lets a \<open>..\<close>
  segment remove the segment before it (or keeps it, in a relative path, when there
  is none to remove), and keeps a leading and a trailing slash.
\<close>

fun segments :: "string \<Rightarrow> string list" where
  "segments [] = [[]]"
| "segments (c # cs) =
     (if c = CHR ''/'' then [] # segments cs
      else case segments cs of
             [] \<Rightarrow> [[c]]
           | p # ps \<Rightarrow> (c # p) # ps)"

fun norm_segs :: "bool \<Rightarrow> string list \<Rightarrow> string list \<Rightarrow> string list" where
  "norm_segs allowAboveRoot acc [] = rev acc"
| "norm_segs allowAboveRoot acc (s # ss) =
     (if s = [] \<or> s = ''.'' then norm_segs allowAboveRoot acc ss
      else if s = ''..'' then
        (case acc of
           [] \<Rightarrow> norm_segs allowAboveRoot (if allowAboveRoot then [s] else []) ss
         | a # acc' \<Rightarrow>
             if a \<noteq> ''..'' then norm_segs allowAboveRoot acc' ss
             else norm_segs allowAboveRoot (if allowAboveRoot then s # acc else acc) ss)
      else norm_segs allowAboveRoot (s # acc) ss)"

definition normalize_path :: "string \<Rightarrow> string" where
  "normalize_path p =
     (if p = [] then ''.''
      else let isAbsolute = (hd p = CHR ''/'');
               trailingSeparator = (last p = CHR ''/'');
               r = join ''/'' (norm_segs (\<not> isAbsolute) [] (segments p))
           in if r = [] then (if isAbsolute then ''/'' else if trailingSeparator then ''./'' else ''.'')
              else (if isAbsolute then ''/'' else []) @ r @ (if trailingSeparator then ''/'' else []))"

definition path_join :: "string \<Rightarrow> string \<Rightarrow> string" where
  "path_join dir name =
     (let joined = join ''/'' (filter (\<lambda>x. x \<noteq> []) [dir, name])
      in if joined = [] then ''.'' else normalize_path joined)"

section \<open>Paginated fetcher with retry and page cache\<close>

record fetch_opts =
  f_version :: "string option"
  f_filter :: "string option"
  f_count :: nat
  f_cacheDir :: "string option"
  f_dryRun :: bool
  f_retry :: nat

text \<open>
  \<^verbatim>\<open>
  let params: any = { offset, count: opts.count };
  if (opts.version) params.valueSetVersion = opts.version;
  if (opts.filter) params.filter = opts.filter;
  const paramStr = Object.entries(params).map(([k, v]) => `${k}=${encodeURIComponent(String(v))}`).join('&');
  const url = `/ValueSet/${oid}/$expand?${paramStr}`;
  \<close>
\<close>

definition expand_params :: "fetch_opts \<Rightarrow> nat \<Rightarrow> (string \<times> string) list" where
  "expand_params opts offset =
     [(''offset'', string_of_nat offset), (''count'', string_of_nat (f_count opts))]
     @ (if truthy (f_version opts) then [(''valueSetVersion'', or_else (f_version opts) [])] else [])
     @ (if truthy (f_filter opts) then [(''filter'', or_else (f_filter opts) [])] else [])"

definition expand_url :: "string \<Rightarrow> fetch_opts \<Rightarrow> nat \<Rightarrow> string" where
  "expand_url oid opts offset =
     ''/ValueSet/'' @ oid @ ''/$expand?''
     @ join ''&'' (map (\<lambda>(k, v). k @ ''='' @ encodeURIComponent v) (expand_params opts offset))"

text \<open>
  \<^verbatim>\<open>
  const cacheFile = opts.cacheDir
    ? path.join(opts.cacheDir, `vsac-${oid}-${opts.version || 'latest'}-page-${offset}.json`)
    : undefined;
  \<close>
\<close>

definition cacheFile :: "string \<Rightarrow> fetch_opts \<Rightarrow> nat \<Rightarrow> string option" where
  "cacheFile oid opts offset =
     (if truthy (f_cacheDir opts)
      then Some (path_join (or_else (f_cacheDir opts) [])
                   (''vsac-'' @ oid @ ''-'' @ or_else (f_version opts) ''latest''
                    @ ''-page-'' @ string_of_nat offset @ ''.json''))
      else None)"

text \<open>
  The test of the \<open>catch\<close> block:
  \<open>e.response && e.response.status >= 500 || e.response?.status === 429\<close>.
\<close>

definition retryable :: "error \<Rightarrow> bool" where
  "retryable e =
     (case response e of
        None \<Rightarrow> False
      | Some r \<Rightarrow> status r \<ge> 500 \<or> status r = 429)"

text \<open>
  The body of the \<open>try\<close> block: one GET and, with a cache directory, the write of
  the page just received. A failing write is an exception of the same \<open>try\<close>.
\<close>

definition try_get :: "string \<Rightarrow> string option \<Rightarrow> fetch_opts \<Rightarrow> world \<Rightarrow> (error + valueset) \<times> world" where
  "try_get url cf opts w =
     (case http_get url w of
        (Inl e, w1) \<Rightarrow> (Inl e, w1)
      | (Inr page, w1) \<Rightarrow>
          (case cf of
             Some file \<Rightarrow>
               if truthy (f_cacheDir opts)
               then (case writeFileSync file page w1 of
                       Inl e \<Rightarrow> (Inl e, w1)
                     | Inr w2 \<Rightarrow> (Inr page, w2))
               else (Inr page, w1)
           | None \<Rightarrow> (Inr page, w1)))"

text \<open>
  \<^verbatim>\<open>
  while (tries < opts.retry) {
    try { ...; break; }
    catch (e: any) {
      if (e.response && e.response.status >= 500 || e.response?.status === 429) {
        tries++;
        await new Promise(r => setTimeout(r, 1000 * Math.pow(2, tries)));
        continue;
      }
      throw e;
    }
  }
  \<close>
  The result is the exception thrown, or the page (\<open>None\<close> while \<open>page\<close> is still
  undefined when the loop is left by its condition), with the counter \<open>tries\<close>,
  which the caller declares outside its own loop.
\<close>

function retry_loop :: "string \<Rightarrow> string option \<Rightarrow> fetch_opts \<Rightarrow> nat \<Rightarrow> world
    \<Rightarrow> (error + valueset option) \<times> nat \<times> world" where
  "retry_loop url cf opts tries w =
     (if tries < f_retry opts then
        (case try_get url cf opts w of
           (Inr page, w1) \<Rightarrow> (Inr (Some page), tries, w1)
         | (Inl e, w1) \<Rightarrow>
             if retryable e
             then retry_loop url cf opts (tries + 1) (emit (Sleep (1000 * 2 ^ (tries + 1))) w1)
             else (Inl e, tries, w1))
      else (Inr None, tries, w))"
  by pat_completeness auto
termination
  by (relation "measure (\<lambda>(url, cf, opts, tries, w). f_retry opts - tries)") auto

text \<open>
  One iteration of the outer loop up to \<open>pages.push(page)\<close>: the cache is looked up
  first; the network is tried only on a miss and outside a dry run.
  \<^verbatim>\<open>
  if (opts.cacheDir && cacheFile && fs.existsSync(cacheFile)) {
    page = JSON.parse(fs.readFileSync(cacheFile, 'utf8'));
  } else if (!opts.dryRun) {
    while (tries < opts.retry) { ... }
    if (!page) throw new Error(`Failed to fetch expansion after ${opts.retry} retries.`);
  }
  if (!page) throw new Error('No expansion page fetched.');
  \<close>
\<close>

definition cache_hit :: "string \<Rightarrow> fetch_opts \<Rightarrow> nat \<Rightarrow> world \<Rightarrow> (string \<times> valueset) option" where
  "cache_hit oid opts offset w =
     (case cacheFile oid opts offset of
        None \<Rightarrow> None
      | Some file \<Rightarrow>
          if truthy (f_cacheDir opts)
          then (case files w file of None \<Rightarrow> None | Some page \<Rightarrow> Some (file, page))
          else None)"

definition fetch_page :: "string \<Rightarrow> fetch_opts \<Rightarrow> nat \<Rightarrow> nat \<Rightarrow> world
    \<Rightarrow> (error + valueset) \<times> nat \<times> world" where
  "fetch_page oid opts offset tries w =
     (case cache_hit oid opts offset w of
        Some (file, page) \<Rightarrow> (Inr page, tries, emit (FileRead file) w)
      | None \<Rightarrow>
          if \<not> f_dryRun opts then
            (case retry_loop (expand_url oid opts offset) (cacheFile oid opts offset) opts tries w of
               (Inl e, tries', w') \<Rightarrow> (Inl e, tries', w')
             | (Inr None, tries', w') \<Rightarrow>
                 (Inl (Error (''Failed to fetch expansion after '' @ string_of_nat (f_retry opts)
                              @ '' retries.'') None), tries', w')
             | (Inr (Some page), tries', w') \<Rightarrow> (Inr page, tries', w'))
          else (Inl (Error ''No expansion page fetched.'' None), tries, w))"

text \<open>
  \<^verbatim>\<open>
  const contains = page.expansion?.contains?.length || 0;
  got += contains;
  const total = page.expansion?.total;
  if (!contains || !total || got >= total) break;
  if (contains === 0) break;
  offset += contains;
  \<close>
\<close>

definition n_contains :: "valueset \<Rightarrow> nat" where
  "n_contains page =
     (case vs_expansion page of
        None \<Rightarrow> 0
      | Some e \<Rightarrow> (case exp_contains e of None \<Rightarrow> 0 | Some xs \<Rightarrow> length xs))"

definition page_total :: "valueset \<Rightarrow> int option" where
  "page_total page = (case vs_expansion page of None \<Rightarrow> None | Some e \<Rightarrow> exp_total e)"

text \<open>The condition of the first \<open>break\<close>; \<open>got\<close> is the count including this page.\<close>

definition stop_after :: "valueset \<Rightarrow> nat \<Rightarrow> bool" where
  "stop_after page got =
     (n_contains page = 0
      \<or> (case page_total page of None \<Rightarrow> True | Some t \<Rightarrow> t = 0 \<or> int got \<ge> t))"

text \<open>
  The outer \<open>while (true)\<close> loop. A service that keeps announcing a larger total keeps
  the loop running, so the loop takes a bound on its iterations and returns \<open>None\<close>
  when the bound is used up before the loop is left.
\<close>

fun fetch_loop :: "nat \<Rightarrow> string \<Rightarrow> fetch_opts \<Rightarrow> nat \<Rightarrow> valueset list \<Rightarrow> nat \<Rightarrow> nat \<Rightarrow> world
    \<Rightarrow> ((error + valueset list) \<times> world) option" where
  "fetch_loop 0 oid opts offset pages got tries w = None"
| "fetch_loop (Suc fuel) oid opts offset pages got tries w =
     (case fetch_page oid opts offset tries w of
        (Inl e, tries', w') \<Rightarrow> Some (Inl e, w')
      | (Inr page, tries', w') \<Rightarrow>
          (let contains = n_contains page;
               got' = got + contains in
           if stop_after page got' then Some (Inr (pages @ [page]), w')
           else if contains = 0 then Some (Inr (pages @ [page]), w')
           else fetch_loop fuel oid opts (offset + contains) (pages @ [page]) got' tries' w'))"

definition fetchValueSetExpansion :: "nat \<Rightarrow> string \<Rightarrow> fetch_opts \<Rightarrow> world
    \<Rightarrow> ((error + valueset list) \<times> world) option" where
  "fetchValueSetExpansion fuel oid opts w = fetch_loop fuel oid opts 0 [] 0 0 w"

text \<open>What a run shows to an observer: its result and the effects it added.\<close>

definition observe :: "('a \<times> world) option \<Rightarrow> ('a \<times> event list) option" where
  "observe r = map_option (\<lambda>(x, w). (x, trace w)) r"

text \<open>
  The stop rule as a property of the list of pages returned, counting from \<open>got\<close>
  items: the last page satisfies the condition of the \<open>break\<close> and no earlier page
  does.
\<close>

fun pages_stop :: "nat \<Rightarrow> valueset list \<Rightarrow> bool" where
  "pages_stop got [] = False"
| "pages_stop got [p] = stop_after p (got + n_contains p)"
| "pages_stop got (p # q # ps) =
     (\<not> stop_after p (got + n_contains p) \<and> pages_stop (got + n_contains p) (q # ps))"

text \<open>The offset at which each page of a list is requested, starting from \<open>offset\<close>.\<close>

fun page_offsets :: "nat \<Rightarrow> valueset list \<Rightarrow> nat list" where
  "page_offsets offset [] = []"
| "page_offsets offset (p # ps) = offset # page_offsets (offset + n_contains p) ps"

text \<open>The effects a request for the page at \<open>offset\<close> may have.\<close>

definition page_event :: "string \<Rightarrow> fetch_opts \<Rightarrow> nat \<Rightarrow> event \<Rightarrow> bool" where
  "page_event oid opts offset e =
     (e = NetGet (expand_url oid opts offset)
      \<or> (\<exists>file. cacheFile oid opts offset = Some file
            \<and> (e = FileRead file \<or> (\<exists>page. e = FileWrite file page)))
      \<or> (\<exists>ms. e = Sleep ms))"

text \<open>The waits and the requested URLs among a list of effects, in order.\<close>

fun sleeps :: "event list \<Rightarrow> nat list" where
  "sleeps [] = []"
| "sleeps (Sleep ms # es) = ms # sleeps es"
| "sleeps (e # es) = sleeps es"

fun gets :: "event list \<Rightarrow> string list" where
  "gets [] = []"
| "gets (NetGet url # es) = url # gets es"
| "gets (e # es) = gets es"

text \<open>No page of a list satisfies the condition of the \<open>break\<close>, counting from \<open>got\<close>.\<close>

fun pages_go :: "nat \<Rightarrow> valueset list \<Rightarrow> bool" where
  "pages_go got [] = True"
| "pages_go got (p # ps) =
     (\<not> stop_after p (got + n_contains p) \<and> pages_go (got + n_contains p) ps)"

section \<open>Merge, output files and upload\<close>

text \<open>
  \<^verbatim>\<open>
  async function fetchValueSetDefinition(client: any, oid: string, version?: string) {
    const url = `/ValueSet/${oid}` + (version ? `?valueSetVersion=${version}` : '');
    const res = await client.get(url);
    return res.data;
  }
  \<close>
\<close>

definition fetchValueSetDefinition :: "string \<Rightarrow> string option \<Rightarrow> world \<Rightarrow> (error + valueset) \<times> world" where
  "fetchValueSetDefinition oid version w =
     http_get (''/ValueSet/'' @ oid
               @ (if truthy version then ''?valueSetVersion='' @ or_else version [] else [])) w"

text \<open>
  \<^verbatim>\<open>
  function mergeExpansionPages(pages: any[]): any {
    if (!pages.length) throw new Error('No expansion pages to merge.');
    const base = { ...pages[0] };
    base.expansion = { ...base.expansion, contains: pages.flatMap(p => p.expansion?.contains || []) };
    return base;
  }
  \<close>
\<close>

definition page_items :: "valueset \<Rightarrow> item list" where
  "page_items p =
     (case vs_expansion p of
        None \<Rightarrow> []
      | Some e \<Rightarrow> (case exp_contains e of None \<Rightarrow> [] | Some xs \<Rightarrow> xs))"

definition mergeExpansionPages :: "valueset list \<Rightarrow> error + valueset" where
  "mergeExpansionPages pages =
     (case pages of
        [] \<Rightarrow> Inl (Error ''No expansion pages to merge.'' None)
      | base # rest \<Rightarrow>
          Inr (base\<lparr>vs_expansion :=
                 Some ((case vs_expansion base of
                          None \<Rightarrow> \<lparr>exp_identifier = None, exp_total = None, exp_contains = None\<rparr>
                        | Some e \<Rightarrow> e)
                       \<lparr>exp_contains := Some (concat (map page_items pages))\<rparr>)\<rparr>))"

text \<open>
  \<^verbatim>\<open>
  function deriveVsacVersion(resource: any): string {
    return resource.version || resource.expansion?.identifier || 'unknown';
  }
  \<close>
\<close>

definition deriveVsacVersion :: "valueset \<Rightarrow> string" where
  "deriveVsacVersion resource =
     or_else (vs_version resource)
       (or_else (case vs_expansion resource of None \<Rightarrow> None | Some e \<Rightarrow> exp_identifier e)
          ''unknown'')"

text \<open>
  \<^verbatim>\<open>
  function writeValueSetFiles(outDir, oid, version, data, mode: 'definition' | 'expanded') {
    fs.mkdirSync(outDir, { recursive: true });
    const safeVersion = version || 'unknown';
    const file = path.join(outDir, `ValueSet-${oid}-${safeVersion}-${mode}.json`);
    fs.writeFileSync(file, JSON.stringify(data, null, 2));
    return file;
  }
  \<close>
\<close>

definition output_file :: "string \<Rightarrow> string \<Rightarrow> string \<Rightarrow> string \<Rightarrow> string" where
  "output_file outDir oid version mode =
     path_join outDir (''ValueSet-'' @ oid @ ''-'' @ or_else (Some version) ''unknown''
                       @ ''-'' @ mode @ ''.json'')"

definition writeValueSetFiles :: "string \<Rightarrow> string \<Rightarrow> string \<Rightarrow> valueset \<Rightarrow> string \<Rightarrow> world
    \<Rightarrow> error + world" where
  "writeValueSetFiles outDir oid version content mode w =
     writeFileSync (output_file outDir oid version mode) content w"

text \<open>
  A POST to the downstream store: \<open>None\<close> when the call returns, the exception
  otherwise.
\<close>

definition http_post :: "string \<Rightarrow> valueset list \<Rightarrow> world \<Rightarrow> error option \<times> world" where
  "http_post url body w = (hapi w (net_calls w) url body, emit (NetPost url body) w)"

text \<open>\<open>baseUrl.replace(/\/?$/, '/ValueSet')\<close>: one trailing slash, if any, is replaced.\<close>

definition valueset_url :: "string \<Rightarrow> string" where
  "valueset_url baseUrl =
     (if baseUrl \<noteq> [] \<and> last baseUrl = CHR ''/'' then butlast baseUrl else baseUrl) @ ''/ValueSet''"

text \<open>
  The \<open>for (const r of resources)\<close> loop of the per-resource branch. There is no
  \<open>try\<close> around the call: an exception of \<open>axios.post\<close> leaves the loop and the
  function.
  \<^verbatim>\<open>
  for (const r of resources) {
    if (opts.dryRun) {
      console.log(`[Dry run] Would POST ValueSet to ${baseUrl}/ValueSet`);
      continue;
    }
    const res = await axios.post(baseUrl.replace(/\/?$/, '/ValueSet'), r, { headers: ... });
    console.log(`ValueSet POST response: ${res.status} ${res.statusText}`);
  }
  \<close>
  The status line of a POST that returned is logged without its status text.
\<close>

fun post_each :: "string \<Rightarrow> bool \<Rightarrow> valueset list \<Rightarrow> world \<Rightarrow> error option \<times> world" where
  "post_each baseUrl dry [] w = (None, w)"
| "post_each baseUrl dry (r # rs) w =
     (if dry
      then post_each baseUrl dry rs
             (emit (ConsoleLog (''[Dry run] Would POST ValueSet to '' @ baseUrl @ ''/ValueSet'')) w)
      else (case http_post (valueset_url baseUrl) [r] w of
              (Some e, w1) \<Rightarrow> (Some e, w1)
            | (None, w1) \<Rightarrow> post_each baseUrl dry rs (emit (ConsoleLog ''ValueSet POST response'') w1)))"

text \<open>
  \<^verbatim>\<open>
  async function postValueSetsToHapi(baseUrl, resources, opts: { bundle?: boolean, dryRun?: boolean }) {
    if (opts.bundle) {
      const bundle = { resourceType: 'Bundle', type: 'transaction',
                       entry: resources.map(r => ({ resource: r, request: { method: 'POST', url: 'ValueSet' } })) };
      if (opts.dryRun) { console.log(`[Dry run] Would POST bundle to ${baseUrl}/`); return; }
      const res = await axios.post(baseUrl, bundle, { headers: ... });
      console.log(`Bundle POST response: ${res.status} ${res.statusText}`);
    } else { for (const r of resources) { ... } }
  }
  \<close>
  A transaction bundle is given by the list of the resources of its entries.
\<close>

definition postValueSetsToHapi :: "string \<Rightarrow> valueset list \<Rightarrow> bool \<Rightarrow> bool \<Rightarrow> world
    \<Rightarrow> error option \<times> world" where
  "postValueSetsToHapi baseUrl resources bundle dry w =
     (if bundle then
        (if dry then (None, emit (ConsoleLog (''[Dry run] Would POST bundle to '' @ baseUrl @ ''/'')) w)
         else (case http_post baseUrl resources w of
                 (Some e, w1) \<Rightarrow> (Some e, w1)
               | (None, w1) \<Rightarrow> (None, emit (ConsoleLog ''Bundle POST response'') w1)))
      else post_each baseUrl dry resources w)"

text \<open>The network calls among the effects.\<close>

definition net_events :: "world \<Rightarrow> event list" where
  "net_events w = filter is_net (trace w)"

section \<open>The per-identifier job\<close>

text \<open>The options of the \<open>valueset\<close> command, after the command line is parsed.\<close>

record opts =
  o_mode :: string
  o_version :: "string option"
  o_filter :: "string option"
  o_out :: string
  o_post :: "string option"
  o_postMode :: string
  o_bundle :: bool
  o_umlsKey :: "string option"
  o_count :: nat
  o_concurrency :: nat
  o_retry :: nat
  o_cache :: "string option"
  o_dryRun :: bool

text \<open>
  The entry a job leaves in \<open>results\<close>: \<open>{ oid, defRes, expRes, version }\<close> on
  success and \<open>{ oid: id, error: e.message }\<close> on failure.
\<close>

record jobresult =
  r_oid :: string
  r_defRes :: "valueset option"
  r_expRes :: "valueset option"
  r_version :: "string option"
  r_error :: "string option"

definition fetch_opts_of :: "opts \<Rightarrow> fetch_opts" where
  "fetch_opts_of opts =
     \<lparr>f_version = o_version opts, f_filter = o_filter opts, f_count = o_count opts,
      f_cacheDir = o_cache opts, f_dryRun = o_dryRun opts, f_retry = o_retry opts\<rparr>"

text \<open>The stub resources a dry run puts in place of the fetched ones.\<close>

definition stub_definition :: "opts \<Rightarrow> string \<Rightarrow> valueset" where
  "stub_definition opts oid =
     \<lparr>vs_id = Some oid, vs_version = Some (or_else (o_version opts) ''unknown''), vs_expansion = None\<rparr>"

definition stub_page :: "opts \<Rightarrow> string \<Rightarrow> valueset" where
  "stub_page opts oid =
     \<lparr>vs_id = Some oid, vs_version = Some (or_else (o_version opts) ''unknown''),
      vs_expansion = Some \<lparr>exp_identifier = None, exp_total = None, exp_contains = Some []\<rparr>\<rparr>"

text \<open>
  \<^verbatim>\<open>
  if (opts.mode === 'definition' || opts.mode === 'both') {
    defRes = opts.dryRun ? { resourceType: 'ValueSet', id: oid, version: opts.version || 'unknown' }
                         : await fetchValueSetDefinition(client, oid, opts.version);
    versionForName = deriveVsacVersion(defRes) || opts.version || 'unknown';
    writeValueSetFiles(opts.out, oid, String(versionForName), defRes, 'definition');
  }
  \<close>
  The result is \<open>defRes\<close> and \<open>versionForName\<close>, or the exception.
\<close>

definition definition_stage :: "opts \<Rightarrow> string \<Rightarrow> world
    \<Rightarrow> (error + valueset option \<times> string option) \<times> world" where
  "definition_stage opts oid w =
     (if o_mode opts = ''definition'' \<or> o_mode opts = ''both'' then
        (case (if o_dryRun opts then (Inr (stub_definition opts oid), w)
               else fetchValueSetDefinition oid (o_version opts) w) of
           (Inl e, w1) \<Rightarrow> (Inl e, w1)
         | (Inr defRes, w1) \<Rightarrow>
             (let versionForName =
                    or_else (Some (deriveVsacVersion defRes)) (or_else (o_version opts) ''unknown'')
              in case writeValueSetFiles (o_out opts) oid versionForName defRes ''definition'' w1 of
                   Inl e \<Rightarrow> (Inl e, w1)
                 | Inr w2 \<Rightarrow> (Inr (Some defRes, Some versionForName), w2)))
      else (Inr (None, None), w))"

text \<open>
  \<^verbatim>\<open>
  if (opts.mode === 'expansion' || opts.mode === 'both') {
    const pages = opts.dryRun
      ? [{ resourceType: 'ValueSet', id: oid, version: opts.version || 'unknown', expansion: { contains: [] } }]
      : await fetchValueSetExpansion(client, oid, { version: opts.version, filter: opts.filter,
          count: +opts.count, cacheDir: opts.cache, dryRun: opts.dryRun, retry: +opts.retry });
    const merged = mergeExpansionPages(pages);
    versionForName = deriveVsacVersion(merged) || versionForName || opts.version || 'unknown';
    writeValueSetFiles(opts.out, oid, String(versionForName), merged, 'expanded');
    expRes = merged;
  }
  \<close>
  The result is \<open>expRes\<close> and \<open>versionForName\<close>, or the exception; \<open>None\<close> when the
  page loop of the fetch does not return within the bound.
\<close>

definition expansion_stage :: "nat \<Rightarrow> opts \<Rightarrow> string \<Rightarrow> string option \<Rightarrow> world
    \<Rightarrow> ((error + valueset option \<times> string option) \<times> world) option" where
  "expansion_stage fuel opts oid versionForName w =
     (if o_mode opts = ''expansion'' \<or> o_mode opts = ''both'' then
        (case (if o_dryRun opts then Some (Inr [stub_page opts oid], w)
               else fetchValueSetExpansion fuel oid (fetch_opts_of opts) w) of
           None \<Rightarrow> None
         | Some (Inl e, w1) \<Rightarrow> Some (Inl e, w1)
         | Some (Inr pages, w1) \<Rightarrow>
             (case mergeExpansionPages pages of
                Inl e \<Rightarrow> Some (Inl e, w1)
              | Inr merged \<Rightarrow>
                  (let version' =
                         or_else (Some (deriveVsacVersion merged))
                           (or_else versionForName (or_else (o_version opts) ''unknown''))
                   in case writeValueSetFiles (o_out opts) oid version' merged ''expanded'' w1 of
                        Inl e \<Rightarrow> Some (Inl e, w1)
                      | Inr w2 \<Rightarrow> Some (Inr (Some merged, Some version'), w2))))
      else Some (Inr (None, versionForName), w))"

text \<open>The \<open>try\<close> block of \<open>next\<close>: normalize, definition stage, expansion stage.\<close>

definition job_body :: "nat \<Rightarrow> opts \<Rightarrow> string \<Rightarrow> world \<Rightarrow> ((error + jobresult) \<times> world) option" where
  "job_body fuel opts id' w =
     (case normalizeVsacId id' of
        Inl e \<Rightarrow> Some (Inl e, w)
      | Inr oid \<Rightarrow>
          (case definition_stage opts oid w of
             (Inl e, w1) \<Rightarrow> Some (Inl e, w1)
           | (Inr (defRes, v1), w1) \<Rightarrow>
               (case expansion_stage fuel opts oid v1 w1 of
                  None \<Rightarrow> None
                | Some (Inl e, w2) \<Rightarrow> Some (Inl e, w2)
                | Some (Inr (expRes, v2), w2) \<Rightarrow>
                    Some (Inr \<lparr>r_oid = oid, r_defRes = defRes, r_expRes = expRes, r_version = v2,
                               r_error = None\<rparr>, w2))))"

text \<open>
  The \<open>catch\<close> block of \<open>next\<close>:
  \<^verbatim>\<open>
  } catch (e: any) {
    console.error(`[${id}] Error:`, e.response?.data ? operationOutcomeToMessage(e.response.data) : e.message);
    results[myIdx] = { oid: id, error: e.message };
  }
  \<close>
  with
  \<^verbatim>\<open>
  function operationOutcomeToMessage(oo: any): string {
    return (oo.issue || []).map((i: any) => i.diagnostics).join('; ');
  }
  \<close>
  The call of \<open>operationOutcomeToMessage\<close> is an argument of \<open>console.error\<close> and
  stands inside the \<open>catch\<close> block: when it throws a \<open>TypeError\<close>, because \<open>issue\<close>
  has no \<open>map\<close> method or because an element of the array is \<open>null\<close>, nothing is
  printed, no entry is stored, and the exception leaves \<open>next\<close>. In the joined
  string an undefined \<open>diagnostics\<close> is the empty string.
\<close>

definition operationOutcomeToMessage :: "issues \<Rightarrow> error + string" where
  "operationOutcomeToMessage oo =
     (case oo of
        NoIssues \<Rightarrow> Inr (join ''; '' [])
      | NotAList \<Rightarrow> Inl (Error ''(oo.issue || []).map is not a function'' None)
      | IssueList xs \<Rightarrow>
          if NullIssue \<in> set xs
          then Inl (Error (''Cannot read properties of null (reading '' @ [CHR 0x27] @ ''diagnostics''
                           @ [CHR 0x27] @ '')'') None)
          else Inr (join ''; '' (map (\<lambda>i. case i of
                                               Issue d \<Rightarrow> (case d of None \<Rightarrow> [] | Some t \<Rightarrow> t)
                                             | NullIssue \<Rightarrow> []) xs)))"

text \<open>\<open>e.response?.data ? operationOutcomeToMessage(e.response.data) : e.message\<close>\<close>

definition error_text :: "error \<Rightarrow> error + string" where
  "error_text e =
     (case response e of
        None \<Rightarrow> Inr (message e)
      | Some r \<Rightarrow> (case data r of None \<Rightarrow> Inr (message e) | Some oo \<Rightarrow> operationOutcomeToMessage oo))"

definition error_result :: "string \<Rightarrow> error \<Rightarrow> jobresult" where
  "error_result id' e =
     \<lparr>r_oid = id', r_defRes = None, r_expRes = None, r_version = None, r_error = Some (message e)\<rparr>"

text \<open>
  One job from the claim of its index to the end of the \<open>try\<close>/\<open>catch\<close> statement:
  the entry stored in \<open>results[myIdx]\<close> (\<open>Inr\<close>), or the exception that leaves the
  \<open>catch\<close> block and with it \<open>next\<close> (\<open>Inl\<close>); \<open>None\<close> when the job does not come to
  an end.
\<close>

definition runJob :: "nat \<Rightarrow> opts \<Rightarrow> string \<Rightarrow> world \<Rightarrow> ((error + jobresult) \<times> world) option" where
  "runJob fuel opts id' w =
     (case job_body fuel opts id' w of
        None \<Rightarrow> None
      | Some (Inr r, w') \<Rightarrow> Some (Inr r, w')
      | Some (Inl e, w') \<Rightarrow>
          (case error_text e of
             Inl thrown \<Rightarrow> Some (Inl thrown, w')
           | Inr text \<Rightarrow>
               Some (Inr (error_result id' e),
                     emit (ConsoleError (''['' @ id' @ ''] Error: '' @ text)) w')))"

section \<open>Worker pool scheduler\<close>

text \<open>
  \<^verbatim>\<open>
  const concurrency = Math.max(1, +opts.concurrency || 4);
  const results: any[] = [];
  let completed = 0;
  let running = 0, idx = 0;
  async function next() {
    if (idx >= ids.length) return;
    const myIdx = idx++;
    running++;
    const id = ids[myIdx];
    try { ... results[myIdx] = { oid, defRes, expRes, version: versionForName }; }
    catch (e: any) { ...; results[myIdx] = { oid: id, error: e.message }; }
    completed++;
    ...
    running--;
    if (idx < ids.length) await next();
  }
  const starters = Array(Math.min(concurrency, ids.length)).fill(0).map(() => next());
  await Promise.all(starters);
  \<close>
  Each element of \<open>starters\<close> is a worker: a chain of calls of \<open>next\<close>. A worker is
  about to call \<open>next\<close> (\<open>Ready\<close>), inside the job it claimed (\<open>Busy\<close> with the index
  \<open>myIdx\<close>), or has returned (\<open>Gone\<close>). The variables of the closure are the fields of
  the state; \<open>started\<close> records the indices claimed, in the order of the claims,
  \<open>env\<close> is the world the jobs act on, and \<open>crashed\<close> holds the exception with which
  a call of \<open>next\<close> was left: it rejects the worker and \<open>Promise.all\<close>, so that the
  \<open>await\<close> of the command throws, the outer \<open>catch\<close> prints \<open>Fatal error:\<close> and
  \<open>process.exit(1)\<close> ends the process with the other workers where they are.
\<close>

datatype wstate = Ready | Busy nat | Gone

record sched =
  idx :: nat
  running :: nat
  completed :: nat
  results :: "nat \<rightharpoonup> jobresult"
  workers :: "wstate list"
  started :: "nat list"
  env :: world
  crashed :: "error option"

definition concurrency_of :: "opts \<Rightarrow> nat" where
  "concurrency_of opts = max 1 (if o_concurrency opts = 0 then 4 else o_concurrency opts)"

definition no_result :: "nat \<rightharpoonup> jobresult" where
  "no_result i = None"

definition init_sched :: "opts \<Rightarrow> string list \<Rightarrow> world \<Rightarrow> sched" where
  "init_sched opts ids w =
     \<lparr>idx = 0, running = 0, completed = 0, results = no_result,
      workers = replicate (min (concurrency_of opts) (length ids)) Ready,
      started = [], env = w, crashed = None\<rparr>"

text \<open>
  The head of \<open>next\<close>, run by worker \<open>k\<close>: return when no job is left, otherwise
  claim the job under the cursor and advance the cursor, in one synchronous piece.
\<close>

definition claim :: "string list \<Rightarrow> nat \<Rightarrow> sched \<Rightarrow> sched" where
  "claim ids k s =
     (if idx s \<ge> length ids then s\<lparr>workers := (workers s)[k := Gone]\<rparr>
      else s\<lparr>idx := idx s + 1, running := running s + 1, started := started s @ [idx s],
             workers := (workers s)[k := Busy (idx s)]\<rparr>)"

text \<open>
  The rest of \<open>next\<close>, run by worker \<open>k\<close> when its job \<open>i\<close> comes to its end: the
  result goes to slot \<open>i\<close>, the counters are updated, and the worker calls \<open>next\<close>
  again when the cursor has not reached the end. The effects of the job are applied
  to the world at this point; a job that does not end leaves the state as it is; an
  exception that leaves \<open>next\<close> is recorded, with no slot filled and no counter
  updated.
\<close>

definition finish :: "nat \<Rightarrow> opts \<Rightarrow> string list \<Rightarrow> nat \<Rightarrow> nat \<Rightarrow> sched \<Rightarrow> sched" where
  "finish fuel opts ids k i s =
     (case runJob fuel opts (ids ! i) (env s) of
        None \<Rightarrow> s
      | Some (Inl thrown, w') \<Rightarrow> s\<lparr>env := w', crashed := Some thrown\<rparr>
      | Some (Inr r, w') \<Rightarrow>
          (let s1 = s\<lparr>results := (results s)(i \<mapsto> r), completed := completed s + 1,
                       running := running s - 1, env := w'\<rparr>
           in if idx s1 < length ids then claim ids k s1
              else s1\<lparr>workers := (workers s1)[k := Gone]\<rparr>))"

text \<open>The event loop resumes worker \<open>k\<close>, unless the process has ended.\<close>

definition step :: "nat \<Rightarrow> opts \<Rightarrow> string list \<Rightarrow> nat \<Rightarrow> sched \<Rightarrow> sched" where
  "step fuel opts ids k s =
     (if crashed s = None \<and> k < length (workers s) then
        (case workers s ! k of
           Ready \<Rightarrow> claim ids k s
         | Busy i \<Rightarrow> finish fuel opts ids k i s
         | Gone \<Rightarrow> s)
      else s)"

text \<open>
  A schedule is the order in which the event loop resumes the workers; the scheduler
  has no say in it.
\<close>

fun exec :: "nat \<Rightarrow> opts \<Rightarrow> string list \<Rightarrow> nat list \<Rightarrow> sched \<Rightarrow> sched" where
  "exec fuel opts ids [] s = s"
| "exec fuel opts ids (k # sch) s = exec fuel opts ids sch (step fuel opts ids k s)"

definition all_gone :: "sched \<Rightarrow> bool" where
  "all_gone s = list_all (\<lambda>x. x = Gone) (workers s)"

fun is_busy :: "wstate \<Rightarrow> bool" where
  "is_busy (Busy i) = True"
| "is_busy x = False"

definition in_flight :: "sched \<Rightarrow> nat" where
  "in_flight s = length (filter is_busy (workers s))"

section \<open>The command\<close>

text \<open>
  \<^verbatim>\<open>
  const toUpload = results.flatMap(r => {
    if (opts.postMode === 'expanded' && r.expRes) return [r.expRes];
    if (opts.postMode === 'definition' && r.defRes) return [r.defRes];
    return [];
  });
  \<close>
\<close>

definition results_list :: "sched \<Rightarrow> nat \<Rightarrow> jobresult list" where
  "results_list s n = concat (map (\<lambda>i. case results s i of None \<Rightarrow> [] | Some r \<Rightarrow> [r]) [0..<n])"

definition toUpload :: "opts \<Rightarrow> jobresult list \<Rightarrow> valueset list" where
  "toUpload opts rs =
     concat (map (\<lambda>r. if o_postMode opts = ''expanded'' \<and> r_expRes r \<noteq> None then [the (r_expRes r)]
                        else if o_postMode opts = ''definition'' \<and> r_defRes r \<noteq> None then [the (r_defRes r)]
                        else []) rs)"

text \<open>
  \<^verbatim>\<open>
  console.log('Summary:');
  console.log(`  OIDs processed: ${ids.length}`);
  console.log(`  Downloaded: ${results.filter(r => !r.error).length}`);
  console.log(`  Errors: ${results.filter(r => r.error).length}`);
  \<close>
\<close>

definition summary :: "nat \<Rightarrow> jobresult list \<Rightarrow> event list" where
  "summary n rs =
     [ConsoleLog ''Summary:'',
      ConsoleLog (''  OIDs processed: '' @ string_of_nat n),
      ConsoleLog (''  Downloaded: '' @ string_of_nat (length (filter (\<lambda>r. \<not> truthy (r_error r)) rs))),
      ConsoleLog (''  Errors: '' @ string_of_nat (length (filter (\<lambda>r. truthy (r_error r)) rs)))]"

definition emit_all :: "event list \<Rightarrow> world \<Rightarrow> world" where
  "emit_all es w = w\<lparr>trace := trace w @ es\<rparr>"

text \<open>
  The action of the command under a schedule: the exit code and the final state, or
  \<open>None\<close> when the schedule ends before every worker has returned. A missing key, an
  exception that left \<open>next\<close> and a failing upload reach the outer \<open>catch\<close>, which
  prints \<open>Fatal error:\<close> and exits with code 1; otherwise the process ends with code 0
  after the summary.
\<close>

definition valueset_action :: "nat \<Rightarrow> opts \<Rightarrow> string option \<Rightarrow> string list \<Rightarrow> nat list \<Rightarrow> world
    \<Rightarrow> (nat \<times> sched) option" where
  "valueset_action fuel opts env_key ids sch w =
     (if \<not> truthy (o_umlsKey opts) \<and> \<not> truthy env_key
      then Some (1, (init_sched opts [] w)\<lparr>env :=
             emit (ConsoleError ''Fatal error: Missing UMLS API key. Set --umls-key or UMLS_API_KEY.'') w\<rparr>)
      else
        (let s = exec fuel opts ids sch (init_sched opts ids w) in
         case crashed s of
           Some thrown \<Rightarrow>
             Some (1, s\<lparr>env := emit (ConsoleError (''Fatal error: '' @ message thrown)) (env s)\<rparr>)
         | None \<Rightarrow>
         if \<not> all_gone s then None
         else
           (let rs = results_list s (length ids);
                (failure, w1) =
                   (if truthy (o_post opts)
                    then postValueSetsToHapi (or_else (o_post opts) []) (toUpload opts rs)
                           (o_bundle opts) (o_dryRun opts) (env s)
                    else (None, env s))
            in case failure of
                 Some e \<Rightarrow> Some (1, s\<lparr>env := emit (ConsoleError (''Fatal error: '' @ message e)) w1\<rparr>)
               | None \<Rightarrow> Some (0, s\<lparr>env := emit_all (summary (length ids) rs) w1\<rparr>))))"

section \<open>The invariant of the scheduler\<close>

text \<open>
  What holds of the state of the scheduler between any two steps: the number of
  workers is fixed; the cursor stays within the list; the claims are the indices
  below the cursor in order; \<open>running\<close> counts the workers inside a job; every job
  below the cursor is either finished, with its result in its own slot, or held by
  exactly one worker; no slot at or above the cursor is filled; a worker has returned
  only once the cursor is at the end; and every result in a slot was produced by the
  job of the identifier at that position.
\<close>

definition sched_inv :: "nat \<Rightarrow> opts \<Rightarrow> string list \<Rightarrow> sched \<Rightarrow> bool" where
  "sched_inv fuel opts ids s \<longleftrightarrow>
     length (workers s) = min (concurrency_of opts) (length ids)
     \<and> idx s \<le> length ids
     \<and> started s = [0..<idx s]
     \<and> running s = in_flight s
     \<and> completed s + running s = idx s
     \<and> (\<forall>k < length (workers s). \<forall>i. workers s ! k = Busy i \<longrightarrow> i < idx s \<and> results s i = None)
     \<and> (\<forall>k < length (workers s). \<forall>k' < length (workers s). \<forall>i.
           workers s ! k = Busy i \<and> workers s ! k' = Busy i \<longrightarrow> k = k')
     \<and> (\<forall>i < idx s. results s i \<noteq> None \<or> (\<exists>k < length (workers s). workers s ! k = Busy i))
     \<and> (\<forall>i. results s i \<noteq> None \<longrightarrow> i < idx s)
     \<and> ((\<exists>k < length (workers s). workers s ! k = Gone) \<longrightarrow> idx s = length ids)
     \<and> (\<forall>i r. results s i = Some r \<longrightarrow> (\<exists>w0 w1. runJob fuel opts (ids ! i) w0 = Some (Inr r, w1)))"

text \<open>The state after the job of worker \<open>k\<close> has ended and before the worker goes on.\<close>

definition complete :: "nat \<Rightarrow> nat \<Rightarrow> jobresult \<Rightarrow> world \<Rightarrow> sched \<Rightarrow> sched" where
  "complete k i r w' s =
     s\<lparr>results := (results s)(i \<mapsto> r), completed := completed s + 1,
       running := running s - 1, env := w', workers := (workers s)[k := Ready]\<rparr>"

text \<open>
  The work left in a state: two units for every job not yet claimed and one for every
  worker that has not returned.
\<close>

definition work_left :: "string list \<Rightarrow> sched \<Rightarrow> nat" where
  "work_left ids s = 2 * (length ids - idx s) + length (filter (\<lambda>x. x \<noteq> Gone) (workers s))"

section \<open>What a dry run may do\<close>

definition stub_version :: "opts \<Rightarrow> string" where
  "stub_version opts = or_else (o_version opts) ''unknown''"




text \<open>The files that a list of effects writes.\<close>

fun written :: "event list \<Rightarrow> string list" where
  "written [] = []"
| "written (FileWrite f c # es) = f # written es"
| "written (e # es) = written es"


text \<open>
  The world \<open>w'\<close> is the world \<open>w\<close> after the effects \<open>evs\<close>: they are added to the
  trace, and a file that none of them writes is as it was.
\<close>

definition adds :: "world \<Rightarrow> event list \<Rightarrow> world \<Rightarrow> bool" where
  "adds w evs w' \<longleftrightarrow>
     trace w' = trace w @ evs \<and> write_fails w' = write_fails w \<and> server w' = server w
     \<and> hapi w' = hapi w \<and> (\<forall>p. p \<notin> set (written evs) \<longrightarrow> files w' p = files w p)"



text \<open>What a run of the command shows: its exit code and the effects.\<close>

definition outcome :: "(nat \<times> sched) option \<Rightarrow> (nat \<times> event list) option" where
  "outcome r = map_option (\<lambda>(code, s). (code, trace (env s))) r"

section \<open>Concrete pages, services and worlds\<close>

text \<open>An expansion page with the given members and announced total.\<close>

definition page_of :: "item list \<Rightarrow> int option \<Rightarrow> valueset" where
  "page_of items tot =
     \<lparr>vs_id = None, vs_version = None,
      vs_expansion = Some \<lparr>exp_identifier = None, exp_total = tot, exp_contains = Some items\<rparr>\<rparr>"

text \<open>The error the HTTP client throws for a response outside 2xx.\<close>

definition http_error :: "nat \<Rightarrow> error" where
  "http_error s =
     Error (''Request failed with status code '' @ string_of_nat s) (Some \<lparr>status = s, data = None\<rparr>)"

text \<open>A service that answers every call alike, and one that follows a script first.\<close>

definition always :: "error + valueset \<Rightarrow> nat \<Rightarrow> string \<Rightarrow> error + valueset" where
  "always r n url = r"

definition scripted :: "(error + valueset) list \<Rightarrow> error + valueset \<Rightarrow> nat \<Rightarrow> string \<Rightarrow> error + valueset" where
  "scripted rs d n url = (if n < length rs then rs ! n else d)"

definition no_file :: "string \<rightharpoonup> valueset" where
  "no_file path = None"

definition never :: "string \<Rightarrow> bool" where
  "never path = False"

definition accept_all :: "nat \<Rightarrow> string \<Rightarrow> valueset list \<Rightarrow> error option" where
  "accept_all n url body = None"

text \<open>A fresh world: empty file system, every write succeeds, nothing has happened.\<close>

definition fresh_world :: "(nat \<Rightarrow> string \<Rightarrow> error + valueset) \<Rightarrow> world" where
  "fresh_world srv =
     \<lparr>files = no_file, write_fails = never, server = srv, hapi = accept_all, trace = []\<rparr>"

definition plain_opts :: "nat \<Rightarrow> fetch_opts" where
  "plain_opts r =
     \<lparr>f_version = None, f_filter = None, f_count = 2, f_cacheDir = None, f_dryRun = False,
      f_retry = r\<rparr>"

text \<open>
  A service that answers the request with filter \<open>asp\<close> for identifier \<open>1.2\<close> with one
  page and every other request with another.
\<close>

definition cached_opts :: "string option \<Rightarrow> fetch_opts" where
  "cached_opts flt =
     \<lparr>f_version = None, f_filter = flt, f_count = 2, f_cacheDir = Some ''c'', f_dryRun = False,
      f_retry = 3\<rparr>"

definition by_filter :: "nat \<Rightarrow> string \<Rightarrow> error + valueset" where
  "by_filter n url =
     (if url = expand_url ''1.2'' (cached_opts (Some ''asp'')) 0
      then Inr (page_of [''aspirin''] None)
      else Inr (page_of [''ibuprofen''] None))"

text \<open>A downstream store that rejects its first call and accepts the later ones.\<close>

definition reject_first :: "nat \<Rightarrow> string \<Rightarrow> valueset list \<Rightarrow> error option" where
  "reject_first n url body = (if n = 0 then Some (http_error 500) else None)"

definition reject_second :: "nat \<Rightarrow> string \<Rightarrow> valueset list \<Rightarrow> error option" where
  "reject_second n url body = (if n = 1 then Some (http_error 500) else None)"

definition store_world :: "(nat \<Rightarrow> string \<Rightarrow> valueset list \<Rightarrow> error option) \<Rightarrow> world" where
  "store_world store =
     \<lparr>files = no_file, write_fails = never, server = always (Inl (http_error 404)), hapi = store,
      trace = []\<rparr>"

text \<open>
  Options of a dry run in expansion mode with two workers, and of a real run with the
  same settings.
\<close>

definition dry_opts :: opts where
  "dry_opts =
     \<lparr>o_mode = ''expansion'', o_version = None, o_filter = None, o_out = ''out'', o_post = Some ''http://h'',
      o_postMode = ''expanded'', o_bundle = False, o_umlsKey = Some ''k'', o_count = 2, o_concurrency = 2,
      o_retry = 3, o_cache = Some ''c'', o_dryRun = True\<rparr>"

definition real_opts :: opts where
  "real_opts = dry_opts\<lparr>o_dryRun := False, o_post := None\<rparr>"

definition three_ids :: "string list" where
  "three_ids = [''1.2'', ''abc'', ''urn:oid:3.4'']"

definition gateway_down :: world where
  "gateway_down = fresh_world (always (Inl (http_error 404)))"

definition one_page_world :: world where
  "one_page_world = fresh_world (always (Inr (page_of [''a''] None)))"

text \<open>
  A service that answers the first call with two of four members and every later
  call with 404.
\<close>

definition page_then_404 :: world where
  "page_then_404 = fresh_world (scripted [Inr (page_of [''a'', ''b''] (Some 4))] (Inl (http_error 404)))"

definition two_pages :: world where
  "two_pages = fresh_world (scripted [Inr (page_of [''a'', ''b''] (Some 3))] (Inr (page_of [''c''] (Some 3))))"

text \<open>
  The error for a 404 response whose body has an \<open>issue\<close> member that is not an
  array, as in \<open>{ "issue": "not found" }\<close>, and a service that answers every call
  with it.
\<close>

definition malformed_404 :: error where
  "malformed_404 =
     Error ''Request failed with status code 404'' (Some \<lparr>status = 404, data = Some NotAList\<rparr>)"

definition odd_gateway :: world where
  "odd_gateway = fresh_world (always (Inl malformed_404))"

section \<open>Properties of paths\<close>

lemma join_snoc: "xs \<noteq> [] \<Longrightarrow> join sep (xs @ [y]) = join sep xs @ sep @ y"
  by (induction sep xs rule: join.induct) auto


lemma segments_nonempty [simp]: "segments q \<noteq> []"
  by (induction q) (auto split: list.splits)

lemma segments_append:
  "CHR ''/'' \<notin> set t \<Longrightarrow> segments (q @ t) = butlast (segments q) @ [last (segments q) @ t]"
proof (induction q)
  case Nil
  then show ?case
  proof (induction t)
    case Nil
    then show ?case by simp
  next
    case (Cons c t)
    then show ?case by (auto split: list.splits)
  qed
next
  case (Cons c q)
  then have ih: "segments (q @ t) = butlast (segments q) @ [last (segments q) @ t]" by simp
  show ?case
  proof (cases "c = CHR ''/''")
    case True
    with ih show ?thesis by simp
  next
    case False
    obtain p ps where sq: "segments q = p # ps" by (cases "segments q") auto
    show ?thesis
    proof (cases ps)
      case Nil
      with sq ih False show ?thesis by simp
    next
      case (Cons p' ps')
      with sq ih False show ?thesis by simp
    qed
  qed
qed



lemma segments_plain: "CHR ''/'' \<notin> set x \<Longrightarrow> segments x = [x]"
  by (induction x) auto

lemma segments_slash: "CHR ''/'' \<notin> set d \<Longrightarrow> segments (d @ ''/'') = [d, []]"
  by (induction d) auto

lemma path_join_plain:
  assumes d: "CHR ''/'' \<notin> set dir" "dir \<noteq> []" "dir \<noteq> ''.''" "dir \<noteq> ''..''"
    and n: "CHR ''/'' \<notin> set name" "name \<noteq> []" "name \<noteq> ''.''" "name \<noteq> ''..''"
  shows "path_join dir name = dir @ ''/'' @ name"
proof -
  define p where "p = dir @ ''/'' @ name"
  have joined: "join ''/'' (filter (\<lambda>x. x \<noteq> []) [dir, name]) = p"
    using d(2) n(2) by (simp add: p_def)
  have "segments p = butlast (segments (dir @ ''/'')) @ [last (segments (dir @ ''/'')) @ name]"
    unfolding p_def using segments_append[OF n(1), of "dir @ ''/''"] by simp
  then have seg: "segments p = [dir, name]" by (simp add: segments_slash[OF d(1)])
  have ns: "norm_segs True [] [dir, name] = [dir, name]"
    using d(2,3,4) n(2,3,4) by simp
  have ne: "p \<noteq> []" by (simp add: p_def)
  have hd: "hd p \<noteq> CHR ''/''" using d(1,2) by (cases dir) (auto simp: p_def)
  have "last p = last name" using n(2) by (simp add: p_def)
  with n(1,2) have lt: "last p \<noteq> CHR ''/''" by (metis last_in_set)
  have "normalize_path p = p"
  proof -
    have j: "join ''/'' [dir, name] = p" by (simp add: p_def)
    have "join ''/'' (norm_segs (\<not> hd p = CHR ''/'') [] (segments p)) = p"
      using hd seg ns j by simp
    with ne hd lt show ?thesis by (simp add: normalize_path_def Let_def)
  qed
  with joined ne show ?thesis by (simp add: path_join_def Let_def p_def)
qed

section \<open>Properties of the identifier normalizer\<close>

lemma dot_not_digit [simp]: "\<not> is_digit (CHR ''.'')"
  by (simp add: is_digit_def)

lemma split_dots_nonempty [simp]: "split_dots s \<noteq> []"
  by (induction s) (auto split: list.splits)

lemma split_dots_head:
  "split_dots s = p # ps \<Longrightarrow> ps \<noteq> [] \<Longrightarrow> \<exists>r. s = p @ CHR ''.'' # r \<and> split_dots r = ps"
proof (induction s arbitrary: p ps)
  case Nil
  then show ?case by simp
next
  case (Cons c cs)
  show ?case
  proof (cases "c = CHR ''.''")
    case True
    with Cons.prems show ?thesis by auto
  next
    case False
    with Cons.prems obtain p' where p': "split_dots cs = p' # ps" "p = c # p'"
      by (auto split: list.splits)
    from Cons.IH[OF p'(1) Cons.prems(2)] obtain r where "cs = p' @ CHR ''.'' # r" "split_dots r = ps"
      by blast
    with p' show ?thesis by auto
  qed
qed

lemma split_dots_chars:
  "list_all (\<lambda>p. list_all P p) (split_dots s) \<Longrightarrow> c \<in> set s \<Longrightarrow> P c \<or> c = CHR ''.''"
proof (induction s)
  case Nil
  then show ?case by simp
next
  case (Cons a s)
  then show ?case
    by (cases "a = CHR ''.''") (auto split: list.splits)
qed

lemma split_dots_last_nonempty:
  "list_all (\<lambda>p. p \<noteq> []) (split_dots s) \<Longrightarrow> s \<noteq> []"
  by (cases s) auto

lemma dotted_numeric_oid_pattern:
  assumes "dotted_numeric m"
  shows "oid_pattern m"
proof -
  obtain p q qs where sp: "split_dots m = p # q # qs"
    using assms by (cases "split_dots m"; cases "tl (split_dots m)") (auto simp: dotted_numeric_def Let_def)
  have allp: "list_all (\<lambda>p. p \<noteq> [] \<and> list_all is_digit p) (split_dots m)"
    using assms by (simp add: dotted_numeric_def Let_def)
  from split_dots_head[OF sp] obtain r where r: "m = p @ CHR ''.'' # r" "split_dots r = q # qs"
    by auto
  have "p \<noteq> []" "list_all is_digit p" using allp sp by auto
  moreover have "list_all (\<lambda>p. p \<noteq> []) (split_dots r)" using allp sp r(2) by (auto simp: list_all_iff)
  then have "r \<noteq> []" by (rule split_dots_last_nonempty)
  moreover have "list_all (\<lambda>p. list_all is_digit p) (split_dots r)"
    using allp sp r(2) by (auto simp: list_all_iff)
  then have "\<forall>c \<in> set r. is_digit_or_dot c"
    using split_dots_chars[of is_digit r] by (auto simp: is_digit_or_dot_def)
  ultimately show ?thesis
    unfolding oid_pattern_def using r(1) by (auto simp: list_all_iff)
qed

lemma match_here_Some:
  assumes "match_here s = Some m"
  shows "\<exists>post. s = m @ post \<and> oid_pattern m \<and> (post = [] \<or> \<not> is_digit_or_dot (hd post))"
proof -
  let ?ds = "takeWhile is_digit s" and ?r = "dropWhile is_digit s"
  from assms have ds: "?ds \<noteq> []" by (auto simp: match_here_def Let_def split: if_splits)
  from assms obtain r' where r': "?r = CHR ''.'' # r'"
    by (auto simp: match_here_def Let_def split: if_splits list.splits)
  let ?t = "takeWhile is_digit_or_dot r'"
  from assms r' ds have t: "?t \<noteq> []" and m: "m = ?ds @ CHR ''.'' # ?t"
    by (auto simp: match_here_def Let_def split: if_splits)
  have s: "s = m @ dropWhile is_digit_or_dot r'"
    using m r' by (metis append.assoc append_Cons takeWhile_dropWhile_id)
  have pat: "oid_pattern m"
    unfolding oid_pattern_def using ds t m
    by (metis set_takeWhileD)
  have "dropWhile is_digit_or_dot r' = [] \<or> \<not> is_digit_or_dot (hd (dropWhile is_digit_or_dot r'))"
    using hd_dropWhile by blast
  with s pat show ?thesis by blast
qed

lemma match_here_pattern:
  assumes "ds \<noteq> []" "\<forall>c \<in> set ds. is_digit c"
    "t \<noteq> []" "\<forall>c \<in> set t. is_digit_or_dot c"
  shows "match_here ((ds @ CHR ''.'' # t) @ post) = Some ((ds @ CHR ''.'' # t) @ takeWhile is_digit_or_dot post)"
proof -
  have tw: "takeWhile is_digit (ds @ CHR ''.'' # t @ post) = ds"
    using assms(2) by (simp add: takeWhile_append2)
  have dw: "dropWhile is_digit (ds @ CHR ''.'' # t @ post) = CHR ''.'' # t @ post"
    using assms(2) by (simp add: dropWhile_append2)
  have tt: "takeWhile is_digit_or_dot (t @ post) = t @ takeWhile is_digit_or_dot post"
    using assms(4) by (simp add: takeWhile_append2)
  show ?thesis
    using assms(1,3) by (simp add: match_here_def tw dw tt Let_def)
qed

lemma match_here_oid_pattern:
  "oid_pattern m \<Longrightarrow> match_here (m @ post) \<noteq> None"
  unfolding oid_pattern_def using match_here_pattern by fastforce

lemma match_here_exact:
  assumes "oid_pattern m" "post = [] \<or> \<not> is_digit_or_dot (hd post)"
  shows "match_here (m @ post) = Some m"
proof -
  have "takeWhile is_digit_or_dot post = []"
    using assms(2) by (cases post) auto
  then show ?thesis
    using assms(1) unfolding oid_pattern_def using match_here_pattern by fastforce
qed

lemma regex_match_Some:
  "regex_match s = Some m \<Longrightarrow>
     \<exists>pre post. s = pre @ m @ post \<and> match_here (m @ post) = Some m
       \<and> (\<forall>pre' rest. s = pre' @ rest \<and> length pre' < length pre \<longrightarrow> match_here rest = None)"
proof (induction s)
  case Nil
  then show ?case by (simp add: match_here_def)
next
  case (Cons c cs)
  show ?case
  proof (cases "match_here (c # cs)")
    case (Some m')
    with Cons.prems have eq: "m' = m" by simp
    from match_here_Some[OF Some] eq obtain post where "c # cs = m @ post" by blast
    with Some eq have "c # cs = [] @ m @ post \<and> match_here (m @ post) = Some m" by simp
    then show ?thesis by (metis length_0_conv less_nat_zero_code list.size(3))
  next
    case None
    with Cons.prems have "regex_match cs = Some m" by simp
    from Cons.IH[OF this] obtain pre post where pp: "cs = pre @ m @ post"
      "match_here (m @ post) = Some m"
      "\<forall>pre' rest. cs = pre' @ rest \<and> length pre' < length pre \<longrightarrow> match_here rest = None"
      by blast
    have "\<forall>pre' rest. c # cs = pre' @ rest \<and> length pre' < length (c # pre) \<longrightarrow> match_here rest = None"
    proof (intro allI impI)
      fix pre' rest assume a: "c # cs = pre' @ rest \<and> length pre' < length (c # pre)"
      show "match_here rest = None"
      proof (cases pre')
        case Nil
        with a None show ?thesis by simp
      next
        case (Cons x xs)
        with a have "cs = xs @ rest" "length xs < length pre" by auto
        with pp(3) show ?thesis by blast
      qed
    qed
    with pp(1,2) have "c # cs = (c # pre) @ m @ post \<and> match_here (m @ post) = Some m
      \<and> (\<forall>pre' rest. c # cs = pre' @ rest \<and> length pre' < length (c # pre) \<longrightarrow> match_here rest = None)"
      by simp
    then show ?thesis by blast
  qed
qed

lemma regex_match_None:
  "regex_match s = None \<longleftrightarrow> (\<forall>pre rest. s = pre @ rest \<longrightarrow> match_here rest = None)"
proof (induction s)
  case Nil
  then show ?case by simp
next
  case (Cons c cs)
  show ?case
  proof (cases "match_here (c # cs)")
    case (Some m')
    then show ?thesis by (metis append_Nil option.distinct(1) option.simps(5) regex_match.simps(2))
  next
    case None
    have "(\<forall>pre rest. c # cs = pre @ rest \<longrightarrow> match_here rest = None)
       \<longleftrightarrow> (\<forall>pre rest. cs = pre @ rest \<longrightarrow> match_here rest = None)"
    proof
      assume l: "\<forall>pre rest. c # cs = pre @ rest \<longrightarrow> match_here rest = None"
      show "\<forall>pre rest. cs = pre @ rest \<longrightarrow> match_here rest = None"
      proof (intro allI impI)
        fix pre rest assume "cs = pre @ rest"
        then have "c # cs = (c # pre) @ rest" by simp
        with l show "match_here rest = None" by blast
      qed
    next
      assume r: "\<forall>pre rest. cs = pre @ rest \<longrightarrow> match_here rest = None"
      show "\<forall>pre rest. c # cs = pre @ rest \<longrightarrow> match_here rest = None"
      proof (intro allI impI)
        fix pre rest assume a: "c # cs = pre @ rest"
        show "match_here rest = None"
        proof (cases pre)
          case Nil
          with a None show ?thesis by simp
        next
          case (Cons x xs)
          with a have "cs = xs @ rest" by simp
          with r show ?thesis by blast
        qed
      qed
    qed
    with None Cons.IH show ?thesis by simp
  qed
qed

lemma match_here_no_digit: "s = [] \<or> \<not> is_digit (hd s) \<Longrightarrow> match_here s = None"
  by (cases s) (auto simp: match_here_def)

lemma regex_match_skip:
  "\<forall>c \<in> set pre. \<not> is_digit c \<Longrightarrow> regex_match (pre @ c # s) = regex_match (c # s)"
  by (induction pre) (auto simp: match_here_no_digit)


text \<open>
  Claim C8, as stated, at a concrete input: an identifier followed by a dot (the end of
  a sentence, say). The normalizer returns the identifier with the trailing dot, which
  is not a dotted-numeric string, instead of the dotted-numeric substring.
\<close>

theorem normalizeVsacId_counterexample:
  "normalizeVsacId ''urn:oid:2.16.840.'' = Inr ''2.16.840.'' \<and> \<not> dotted_numeric ''2.16.840.''"
  by (simp add: normalizeVsacId_def match_here_def is_digit_def is_digit_or_dot_def
      dotted_numeric_def)

text \<open>
  Claim C8, amended: the normalizer returns the leftmost substring of the form
  \<open>digits . (digit or dot)+\<close>, extended to the right as far as digits and dots go (so
  the result may end in a dot or contain consecutive dots); it fails exactly when the
  input has no substring of that form; and it returns exactly the dotted-numeric
  identifier whenever the text before the identifier has no digit and the identifier
  is not directly followed by a digit or a dot (as for \<open>urn:oid:\<close> and canonical
  URL forms).
\<close>

theorem normalizeVsacId_leftmost_longest:
  "(normalizeVsacId s = Inr m \<longrightarrow>
      (\<exists>pre post. s = pre @ m @ post \<and> oid_pattern m
         \<and> (post = [] \<or> \<not> is_digit_or_dot (hd post))
         \<and> (\<forall>pre' m' post'. s = pre' @ m' @ post' \<and> oid_pattern m'
               \<longrightarrow> length pre \<le> length pre')))
   \<and> ((\<exists>e. normalizeVsacId s = Inl e)
        \<longleftrightarrow> \<not> (\<exists>pre' m' post'. s = pre' @ m' @ post' \<and> oid_pattern m'))
   \<and> (dotted_numeric oid \<and> (\<forall>c \<in> set lead. \<not> is_digit c)
        \<and> (trail = [] \<or> \<not> is_digit_or_dot (hd trail))
      \<longrightarrow> normalizeVsacId (lead @ oid @ trail) = Inr oid)"
proof (intro conjI impI)
  assume "normalizeVsacId s = Inr m"
  then have rm: "regex_match s = Some m"
    by (auto simp: normalizeVsacId_def split: option.splits)
  from regex_match_Some[OF rm] obtain pre post where pp: "s = pre @ m @ post"
    "match_here (m @ post) = Some m"
    "\<forall>pre' rest. s = pre' @ rest \<and> length pre' < length pre \<longrightarrow> match_here rest = None"
    by blast
  from match_here_Some[OF pp(2)] have pat: "oid_pattern m"
    and gr: "post = [] \<or> \<not> is_digit_or_dot (hd post)" by auto
  have "\<forall>pre' m' post'. s = pre' @ m' @ post' \<and> oid_pattern m' \<longrightarrow> length pre \<le> length pre'"
  proof (intro allI impI)
    fix pre' m' post' assume a: "s = pre' @ m' @ post' \<and> oid_pattern m'"
    show "length pre \<le> length pre'"
    proof (rule ccontr)
      assume "\<not> length pre \<le> length pre'"
      then have "length pre' < length pre" by simp
      with a pp(3) have "match_here (m' @ post') = None" by blast
      with a match_here_oid_pattern show False by blast
    qed
  qed
  with pp(1) pat gr
  show "\<exists>pre post. s = pre @ m @ post \<and> oid_pattern m
         \<and> (post = [] \<or> \<not> is_digit_or_dot (hd post))
         \<and> (\<forall>pre' m' post'. s = pre' @ m' @ post' \<and> oid_pattern m'
               \<longrightarrow> length pre \<le> length pre')"
    by blast
next
  show "(\<exists>e. normalizeVsacId s = Inl e)
        \<longleftrightarrow> \<not> (\<exists>pre' m' post'. s = pre' @ m' @ post' \<and> oid_pattern m')"
  proof
    assume "\<exists>e. normalizeVsacId s = Inl e"
    then have "regex_match s = None"
      by (auto simp: normalizeVsacId_def split: option.splits)
    then have "\<forall>pre rest. s = pre @ rest \<longrightarrow> match_here rest = None"
      by (simp add: regex_match_None)
    then show "\<not> (\<exists>pre' m' post'. s = pre' @ m' @ post' \<and> oid_pattern m')"
      using match_here_oid_pattern by blast
  next
    assume no: "\<not> (\<exists>pre' m' post'. s = pre' @ m' @ post' \<and> oid_pattern m')"
    have "regex_match s = None"
    proof (cases "regex_match s")
      case (Some m')
      from regex_match_Some[OF Some] obtain pre post where "s = pre @ m' @ post"
        "match_here (m' @ post) = Some m'" by blast
      with match_here_Some[of "m' @ post" m'] no show ?thesis by blast
    qed simp
    then show "\<exists>e. normalizeVsacId s = Inl e"
      by (simp add: normalizeVsacId_def)
  qed
next
  assume a: "dotted_numeric oid \<and> (\<forall>c \<in> set lead. \<not> is_digit c)
        \<and> (trail = [] \<or> \<not> is_digit_or_dot (hd trail))"
  then have pat: "oid_pattern oid" by (simp add: dotted_numeric_oid_pattern)
  then obtain c cs where oid: "oid = c # cs" by (cases oid) (auto simp: oid_pattern_def)
  from a pat have mh: "match_here (oid @ trail) = Some oid" by (simp add: match_here_exact)
  have "regex_match (lead @ oid @ trail) = regex_match (oid @ trail)"
    using a oid regex_match_skip[of lead c "cs @ trail"] by simp
  also have "\<dots> = Some oid" using mh oid by simp
  finally show "normalizeVsacId (lead @ oid @ trail) = Inr oid"
    by (simp add: normalizeVsacId_def)
qed

text \<open>The amended claim C8 at concrete inputs, one accepted and one rejected.\<close>

theorem normalizeVsacId_leftmost_longest_witness:
  "normalizeVsacId ''urn:oid:2.16.840'' = Inr ''2.16.840''
   \<and> dotted_numeric ''2.16.840''
   \<and> oid_pattern ''2.16.840''
   \<and> (\<exists>e. normalizeVsacId ''not an oid 7.'' = Inl e)
   \<and> \<not> (\<exists>pre' m' post'. ''not an oid 7.'' = pre' @ m' @ post' \<and> oid_pattern m')"
proof -
  have d: "dotted_numeric ''2.16.840''"
    by (simp add: dotted_numeric_def is_digit_def)
  have p: "\<forall>c \<in> set ''urn:oid:''. \<not> is_digit c"
    by (simp add: is_digit_def)
  have r: "normalizeVsacId (''urn:oid:'' @ ''2.16.840'' @ []) = Inr ''2.16.840''"
    using normalizeVsacId_leftmost_longest[of _ _ "''2.16.840''" "''urn:oid:''" "[]"] d p by blast
  then have r': "normalizeVsacId ''urn:oid:2.16.840'' = Inr ''2.16.840''" by simp
  have o: "oid_pattern ''2.16.840''"
    using normalizeVsacId_leftmost_longest[of "''urn:oid:2.16.840''" "''2.16.840''"] r' by blast
  have e: "\<exists>e. normalizeVsacId ''not an oid 7.'' = Inl e"
    by (simp add: normalizeVsacId_def match_here_def is_digit_def is_digit_or_dot_def)
  have n: "\<not> (\<exists>pre' m' post'. ''not an oid 7.'' = pre' @ m' @ post' \<and> oid_pattern m')"
    using normalizeVsacId_leftmost_longest[of "''not an oid 7.''"] e by blast
  from r' d o e n show ?thesis by simp
qed

section \<open>Properties of the paginated fetcher\<close>

subsection \<open>Effects only ever extend the trace\<close>

lemma emit_fields [simp]:
  "trace (emit e w) = trace w @ [e]"
  "files (emit e w) = files w"
  "server (emit e w) = server w"
  "write_fails (emit e w) = write_fails w"
  "hapi (emit e w) = hapi w"
  by (simp_all add: emit_def)

lemma net_calls_emit [simp]:
  "net_calls (emit e w) = (if is_net e then Suc (net_calls w) else net_calls w)"
  by (simp add: net_calls_def)

lemma http_get_fields:
  "http_get url w = (r, w') \<Longrightarrow>
     r = server w (net_calls w) url \<and> w' = emit (NetGet url) w"
  by (auto simp: http_get_def)

lemma writeFileSync_Inr:
  "writeFileSync file content w = Inr w' \<Longrightarrow>
     trace w' = trace w @ [FileWrite file content] \<and> files w' = (files w)(file \<mapsto> content)
     \<and> server w' = server w \<and> write_fails w' = write_fails w \<and> hapi w' = hapi w"
  by (auto simp: writeFileSync_def split: if_splits)

lemma try_get_Inl:
  "try_get url cf opts w = (Inl e, w') \<Longrightarrow>
     w' = emit (NetGet url) w
     \<and> (server w (net_calls w) url = Inl e \<or> (\<exists>page. server w (net_calls w) url = Inr page \<and> response e = None))"
  by (auto simp: try_get_def http_get_def writeFileSync_def split: sum.splits option.splits if_splits)

lemma try_get_Inr:
  "try_get url cf opts w = (Inr page, w') \<Longrightarrow>
     server w (net_calls w) url = Inr page
     \<and> server w' = server w \<and> write_fails w' = write_fails w \<and> hapi w' = hapi w
     \<and> (case cf of
           Some file \<Rightarrow>
             if truthy (f_cacheDir opts)
             then trace w' = trace w @ [NetGet url, FileWrite file page] \<and> files w' = (files w)(file \<mapsto> page)
             else trace w' = trace w @ [NetGet url] \<and> files w' = files w
         | None \<Rightarrow> trace w' = trace w @ [NetGet url] \<and> files w' = files w)"
  by (auto simp: try_get_def http_get_def split: sum.splits option.splits if_splits
      dest!: writeFileSync_Inr)

lemma cacheFile_Some_truthy:
  "cacheFile oid opts offset = Some file \<Longrightarrow> truthy (f_cacheDir opts)"
  by (auto simp: cacheFile_def split: if_splits)



subsection \<open>The retry loop\<close>

lemma retry_loop_events:
  "retry_loop url cf opts tries w = (r, tries', w') \<Longrightarrow>
     \<exists>seg. trace w' = trace w @ seg
       \<and> (\<forall>e \<in> set seg. e = NetGet url \<or> (\<exists>ms. e = Sleep ms) \<or> (\<exists>file page. cf = Some file \<and> e = FileWrite file page))"
proof (induction url cf opts tries w rule: retry_loop.induct)
  case (1 url cf opts tries w)
  show ?case
  proof (cases "tries < f_retry opts")
    case False
    with "1.prems" show ?thesis by simp
  next
    case True
    obtain x w1 where tg: "try_get url cf opts w = (x, w1)" by (cases "try_get url cf opts w")
    show ?thesis
    proof (cases x)
      case (Inr page)
      with tg True "1.prems" have w': "w' = w1" by simp
      from try_get_Inr[OF tg[unfolded Inr]] w' show ?thesis
        by (auto split: option.splits if_splits)
    next
      case (Inl e)
      from try_get_Inl[OF tg[unfolded Inl]] have w1: "w1 = emit (NetGet url) w" by simp
      show ?thesis
      proof (cases "retryable e")
        case False
        with tg Inl True "1.prems" w1 have "trace w' = trace w @ [NetGet url]" by auto
        then show ?thesis by auto
      next
        case rt: True
        let ?w2 = "emit (Sleep (1000 * 2 ^ (tries + 1))) w1"
        from tg Inl True rt "1.prems"
        have "retry_loop url cf opts (tries + 1) ?w2 = (r, tries', w')" by simp
        from "1.IH"[OF True tg[symmetric] Inl rt this]
        obtain seg where "trace w' = trace ?w2 @ seg"
          "\<forall>e \<in> set seg. e = NetGet url \<or> (\<exists>ms. e = Sleep ms) \<or> (\<exists>file page. cf = Some file \<and> e = FileWrite file page)"
          by blast
        with w1 have "trace w' = trace w @ (NetGet url # Sleep (1000 * 2 ^ (tries + 1)) # seg)
          \<and> (\<forall>e \<in> set (NetGet url # Sleep (1000 * 2 ^ (tries + 1)) # seg).
               e = NetGet url \<or> (\<exists>ms. e = Sleep ms) \<or> (\<exists>file page. cf = Some file \<and> e = FileWrite file page))"
          by simp
        then show ?thesis by blast
      qed
    qed
  qed
qed

lemma retry_loop_success:
  "retry_loop url cf opts tries w = (Inr (Some page), tries', w') \<Longrightarrow>
     cf = Some file \<Longrightarrow> truthy (f_cacheDir opts) \<Longrightarrow>
     files w' file = Some page \<and> (\<exists>evs. trace w' = trace w @ evs @ [NetGet url, FileWrite file page])"
proof (induction url cf opts tries w rule: retry_loop.induct)
  case (1 url cf opts tries w)
  show ?case
  proof (cases "tries < f_retry opts")
    case False
    with "1.prems" show ?thesis by simp
  next
    case True
    obtain x w1 where tg: "try_get url cf opts w = (x, w1)" by (cases "try_get url cf opts w")
    show ?thesis
    proof (cases x)
      case (Inr p)
      with tg True "1.prems" have w': "w' = w1" "p = page" by simp_all
      from try_get_Inr[OF tg[unfolded Inr]] w' "1.prems"(2,3) show ?thesis
        by auto
    next
      case (Inl e)
      from try_get_Inl[OF tg[unfolded Inl]] have w1: "w1 = emit (NetGet url) w" by simp
      show ?thesis
      proof (cases "retryable e")
        case False
        with tg Inl True "1.prems" w1 show ?thesis by simp
      next
        case rt: True
        let ?w2 = "emit (Sleep (1000 * 2 ^ (tries + 1))) w1"
        from tg Inl True rt "1.prems"
        have "retry_loop url cf opts (tries + 1) ?w2 = (Inr (Some page), tries', w')" by simp
        from "1.IH"[OF True tg[symmetric] Inl rt this "1.prems"(2,3)]
        obtain evs where f: "files w' file = Some page"
          and "trace w' = trace ?w2 @ evs @ [NetGet url, FileWrite file page]"
          by blast
        with w1 have "trace w' = trace w @ (NetGet url # Sleep (1000 * 2 ^ (tries + 1)) # evs) @ [NetGet url, FileWrite file page]"
          by simp
        with f show ?thesis by blast
      qed
    qed
  qed
qed

lemma retry_loop_exhausted:
  "\<forall>i < f_retry opts - tries. \<exists>e. server w (net_calls w + i) url = Inl e \<and> retryable e \<Longrightarrow>
     fst (retry_loop url cf opts tries w) = Inr None"
proof (induction url cf opts tries w rule: retry_loop.induct)
  case (1 url cf opts tries w)
  show ?case
  proof (cases "tries < f_retry opts")
    case False
    then show ?thesis by simp
  next
    case True
    obtain x w1 where tg: "try_get url cf opts w = (x, w1)" by (cases "try_get url cf opts w")
    from "1.prems" True obtain e0 where e0: "server w (net_calls w) url = Inl e0" "retryable e0"
      by (metis add.right_neutral zero_less_diff)
    show ?thesis
    proof (cases x)
      case (Inr p)
      from try_get_Inr[OF tg[unfolded Inr]] e0 show ?thesis by simp
    next
      case (Inl e)
      from try_get_Inl[OF tg[unfolded Inl]] e0 have w1: "w1 = emit (NetGet url) w" and e: "e = e0"
        by auto
      let ?w2 = "emit (Sleep (1000 * 2 ^ (tries + 1))) w1"
      have srv: "\<forall>i < f_retry opts - (tries + 1).
                  \<exists>e. server ?w2 (net_calls ?w2 + i) url = Inl e \<and> retryable e"
      proof (intro allI impI)
        fix i assume "i < f_retry opts - (tries + 1)"
        then have "Suc i < f_retry opts - tries" by simp
        with "1.prems" obtain e' where "server w (net_calls w + Suc i) url = Inl e'" "retryable e'"
          by blast
        then show "\<exists>e. server ?w2 (net_calls ?w2 + i) url = Inl e \<and> retryable e"
          using w1 by simp
      qed
      from "1.IH"[OF True tg[symmetric] Inl _ srv] e e0
      have "fst (retry_loop url cf opts (tries + 1) ?w2) = Inr None" by simp
      with tg Inl True e e0 show ?thesis by simp
    qed
  qed
qed

lemma sleeps_append [simp]: "sleeps (xs @ ys) = sleeps xs @ sleeps ys"
  by (induction xs rule: sleeps.induct) simp_all

lemma gets_append [simp]: "gets (xs @ ys) = gets xs @ gets ys"
  by (induction xs rule: gets.induct) simp_all

text \<open>
  The policy of the retry loop from a counter value \<open>tries\<close>: a failure that is not
  retryable is returned after its single request; otherwise failure number \<open>k\<close>
  (counted from \<open>tries + 1\<close>) is followed by a wait of \<open>1000 * 2 ^ k\<close> ms, and the
  number of requests is the number of waits, plus one when the loop is left by a
  result or an exception; the counter never passes the configured bound.
\<close>

lemma retry_loop_not_retried:
  assumes "tries < f_retry opts" and "server w (net_calls w) url = Inl e" and "\<not> retryable e"
  shows "retry_loop url cf opts tries w = (Inl e, tries, emit (NetGet url) w)"
  using assms by (simp add: try_get_def http_get_def)

lemma retry_loop_backoff:
  "retry_loop url cf opts tries w = (r, tries', w') \<Longrightarrow>
     \<exists>evs. trace w' = trace w @ evs
       \<and> tries \<le> tries' \<and> (tries \<le> f_retry opts \<longrightarrow> tries' \<le> f_retry opts)
       \<and> sleeps evs = map (\<lambda>k. 1000 * 2 ^ k) [tries + 1 ..< tries' + 1]
       \<and> gets evs = replicate (tries' - tries + (if r = Inr None then 0 else 1)) url"
proof (induction url cf opts tries w rule: retry_loop.induct)
  case (1 url cf opts tries w)
  show ?case
  proof (cases "tries < f_retry opts")
    case False
    with "1.prems" have "r = Inr None" "tries' = tries" "w' = w" by simp_all
    then have "trace w' = trace w @ []
       \<and> tries \<le> tries' \<and> (tries \<le> f_retry opts \<longrightarrow> tries' \<le> f_retry opts)
       \<and> sleeps [] = map (\<lambda>k. 1000 * 2 ^ k) [tries + 1 ..< tries' + 1]
       \<and> gets [] = replicate (tries' - tries + (if r = Inr None then 0 else 1)) url"
      by simp
    then show ?thesis by blast
  next
    case True
    obtain x w1 where tg: "try_get url cf opts w = (x, w1)" by (cases "try_get url cf opts w")
    show ?thesis
    proof (cases x)
      case (Inr page)
      with tg True "1.prems" have res: "r = Inr (Some page)" "tries' = tries" "w' = w1" by simp_all
      from try_get_Inr[OF tg[unfolded Inr]]
      obtain evs where "trace w1 = trace w @ evs" "sleeps evs = []" "gets evs = [url]"
        by (cases cf; cases "truthy (f_cacheDir opts)") auto
      with res True have "trace w' = trace w @ evs
         \<and> tries \<le> tries' \<and> (tries \<le> f_retry opts \<longrightarrow> tries' \<le> f_retry opts)
         \<and> sleeps evs = map (\<lambda>k. 1000 * 2 ^ k) [tries + 1 ..< tries' + 1]
         \<and> gets evs = replicate (tries' - tries + (if r = Inr None then 0 else 1)) url"
        by simp
      then show ?thesis by blast
    next
      case (Inl e)
      from try_get_Inl[OF tg[unfolded Inl]] have w1: "w1 = emit (NetGet url) w" by simp
      show ?thesis
      proof (cases "retryable e")
        case False
        with tg Inl True "1.prems" w1 have "r = Inl e" "tries' = tries" "w' = emit (NetGet url) w"
          by simp_all
        with True have "trace w' = trace w @ [NetGet url]
           \<and> tries \<le> tries' \<and> (tries \<le> f_retry opts \<longrightarrow> tries' \<le> f_retry opts)
           \<and> sleeps [NetGet url] = map (\<lambda>k. 1000 * 2 ^ k) [tries + 1 ..< tries' + 1]
           \<and> gets [NetGet url] = replicate (tries' - tries + (if r = Inr None then 0 else 1)) url"
          by simp
        then show ?thesis by blast
      next
        case rt: True
        let ?w2 = "emit (Sleep (1000 * 2 ^ (tries + 1))) w1"
        from tg Inl True rt "1.prems"
        have "retry_loop url cf opts (tries + 1) ?w2 = (r, tries', w')" by simp
        from "1.IH"[OF True tg[symmetric] Inl rt this]
        obtain evs where e: "trace w' = trace ?w2 @ evs" "tries + 1 \<le> tries'"
          "tries + 1 \<le> f_retry opts \<longrightarrow> tries' \<le> f_retry opts"
          "sleeps evs = map (\<lambda>k. 1000 * 2 ^ k) [tries + 1 + 1 ..< tries' + 1]"
          "gets evs = replicate (tries' - (tries + 1) + (if r = Inr None then 0 else 1)) url"
          by blast
        let ?evs = "NetGet url # Sleep (1000 * 2 ^ (tries + 1)) # evs"
        have up: "[tries + 1 ..< tries' + 1] = (tries + 1) # [tries + 1 + 1 ..< tries' + 1]"
          using e(2) by (simp add: upt_conv_Cons)
        have cnt: "Suc (tries' - (tries + 1) + (if r = Inr None then 0 else 1))
            = tries' - tries + (if r = Inr None then 0 else 1)"
          using e(2) by simp
        have "trace w' = trace w @ ?evs" using e(1) w1 by simp
        moreover have "tries \<le> tries'" using e(2) by simp
        moreover have "tries \<le> f_retry opts \<longrightarrow> tries' \<le> f_retry opts" using e(3) True by simp
        moreover have "sleeps ?evs = map (\<lambda>k. 1000 * 2 ^ k) [tries + 1 ..< tries' + 1]"
          using e(4) up by simp
        moreover have "gets ?evs = replicate (tries' - tries + (if r = Inr None then 0 else 1)) url"
          using e(5) cnt by (simp flip: replicate_Suc)
        ultimately show ?thesis by blast
      qed
    qed
  qed
qed

subsection \<open>One page\<close>

lemma cache_hit_Some:
  "cache_hit oid opts offset w = Some (file, page) \<longleftrightarrow>
     cacheFile oid opts offset = Some file \<and> files w file = Some page"
  by (auto simp: cache_hit_def dest: cacheFile_Some_truthy split: option.splits)

lemma cache_hit_None:
  "cache_hit oid opts offset w = None \<longleftrightarrow>
     (\<forall>file. cacheFile oid opts offset = Some file \<longrightarrow> files w file = None)"
  by (auto simp: cache_hit_def dest: cacheFile_Some_truthy split: option.splits)

lemma fetch_page_events:
  assumes "fetch_page oid opts offset tries w = (r, tries', w')"
  shows "\<exists>seg. trace w' = trace w @ seg \<and> (\<forall>e \<in> set seg. page_event oid opts offset e)"
proof (cases "cache_hit oid opts offset w")
  case (Some hit)
  obtain cf page where hit: "hit = (cf, page)" by (cases hit)
  with Some have "cacheFile oid opts offset = Some cf" by (simp add: cache_hit_Some)
  moreover from assms Some hit have "trace w' = trace w @ [FileRead cf]"
    by (auto simp: fetch_page_def)
  ultimately show ?thesis by (auto simp: page_event_def)
next
  case None
  show ?thesis
  proof (cases "f_dryRun opts")
    case True
    with assms None show ?thesis by (auto simp: fetch_page_def)
  next
    case False
    obtain x t1 w1 where rl:
      "retry_loop (expand_url oid opts offset) (cacheFile oid opts offset) opts tries w = (x, t1, w1)"
      by (cases "retry_loop (expand_url oid opts offset) (cacheFile oid opts offset) opts tries w")
    with assms None False have "w' = w1"
      by (auto simp: fetch_page_def split: sum.splits option.splits)
    with retry_loop_events[OF rl] show ?thesis
      by (fastforce simp: page_event_def)
  qed
qed

subsection \<open>The page loop\<close>

lemma not_stop_contains: "\<not> stop_after p g \<Longrightarrow> 0 < n_contains p"
  by (simp add: stop_after_def)

lemma pages_stop_snoc:
  "pages_stop got (p # ps) \<longleftrightarrow>
     (if ps = [] then stop_after p (got + n_contains p)
      else \<not> stop_after p (got + n_contains p) \<and> pages_stop (got + n_contains p) ps)"
  by (cases ps) auto

lemma page_offsets_lower: "x \<in> set (page_offsets offset ps) \<Longrightarrow> offset \<le> x"
  by (induction ps arbitrary: offset) fastforce+

lemma pages_stop_increasing:
  "pages_stop got ps \<Longrightarrow> sorted_wrt (<) (page_offsets offset ps)"
proof (induction got ps arbitrary: offset rule: pages_stop.induct)
  case (3 got p q ps)
  then have pos: "0 < n_contains p" and rest: "pages_stop (got + n_contains p) (q # ps)"
    by (auto dest: not_stop_contains)
  have "\<forall>x \<in> set (page_offsets (offset + n_contains p) (q # ps)). offset < x"
    using pos page_offsets_lower[of _ "offset + n_contains p" "q # ps"] by fastforce
  with "3.IH"[OF rest, of "offset + n_contains p"] show ?case by simp
qed simp_all

lemma fetch_loop_pages:
  "fetch_loop fuel oid opts offset pages0 got tries w = Some (Inr pages, w') \<Longrightarrow>
     \<exists>new segs. pages = pages0 @ new \<and> pages_stop got new
       \<and> trace w' = trace w @ concat segs
       \<and> list_all2 (\<lambda>off seg. \<forall>e \<in> set seg. page_event oid opts off e) (page_offsets offset new) segs"
proof (induction fuel arbitrary: offset pages0 got tries w)
  case 0
  then show ?case by simp
next
  case (Suc fuel)
  obtain x t1 w1 where fp: "fetch_page oid opts offset tries w = (x, t1, w1)"
    by (cases "fetch_page oid opts offset tries w")
  from fetch_page_events[OF fp] obtain seg where seg: "trace w1 = trace w @ seg"
    "\<forall>e \<in> set seg. page_event oid opts offset e" by blast
  show ?case
  proof (cases x)
    case (Inl e)
    with fp Suc.prems show ?thesis by simp
  next
    case (Inr page)
    show ?thesis
    proof (cases "stop_after page (got + n_contains page)")
      case True
      with fp Inr Suc.prems have "pages = pages0 @ [page]" "w' = w1" by (simp_all add: Let_def)
      with True seg have "pages = pages0 @ [page] \<and> pages_stop got [page]
        \<and> trace w' = trace w @ concat [seg]
        \<and> list_all2 (\<lambda>off seg. \<forall>e \<in> set seg. page_event oid opts off e) (page_offsets offset [page]) [seg]"
        by simp
      then show ?thesis by blast
    next
      case False
      then have pos: "n_contains page \<noteq> 0" by (simp add: stop_after_def)
      with fp Inr False Suc.prems
      have "fetch_loop fuel oid opts (offset + n_contains page) (pages0 @ [page])
              (got + n_contains page) t1 w1 = Some (Inr pages, w')"
        by (simp add: Let_def)
      from Suc.IH[OF this] obtain new segs where n: "pages = (pages0 @ [page]) @ new"
        "pages_stop (got + n_contains page) new"
        "trace w' = trace w1 @ concat segs"
        "list_all2 (\<lambda>off seg. \<forall>e \<in> set seg. page_event oid opts off e)
            (page_offsets (offset + n_contains page) new) segs"
        by blast
      from n(2) have ne: "new \<noteq> []" by (cases new) auto
      with False n(2) have "pages_stop got (page # new)" by (simp add: pages_stop_snoc)
      with n seg have "pages = pages0 @ (page # new) \<and> pages_stop got (page # new)
        \<and> trace w' = trace w @ concat (seg # segs)
        \<and> list_all2 (\<lambda>off seg. \<forall>e \<in> set seg. page_event oid opts off e)
             (page_offsets offset (page # new)) (seg # segs)"
        by simp
      then show ?thesis by blast
    qed
  qed
qed

subsection \<open>Evaluation at concrete inputs\<close>

lemma fetch_loop_numeral:
  "fetch_loop (numeral k) oid opts offset pages got tries w =
     (case fetch_page oid opts offset tries w of
        (Inl e, tries', w') \<Rightarrow> Some (Inl e, w')
      | (Inr page, tries', w') \<Rightarrow>
          (let contains = n_contains page;
               got' = got + contains in
           if stop_after page got' then Some (Inr (pages @ [page]), w')
           else if contains = 0 then Some (Inr (pages @ [page]), w')
           else fetch_loop (pred_numeral k) oid opts (offset + contains) (pages @ [page]) got' tries' w'))"
  by (simp only: numeral_eq_Suc fetch_loop.simps)

lemmas fetch_eval =
  observe_def fetchValueSetExpansion_def fetch_loop_numeral fetch_page_def cache_hit_def
  cacheFile_def truthy_def or_else_def expand_url_def expand_params_def
  encodeURIComponent_def unreserved_def digit_char_def try_get_def http_get_def emit_def
  net_calls_def writeFileSync_def retryable_def stop_after_def n_contains_def page_total_def
  Let_def page_of_def http_error_def always_def scripted_def no_file_def never_def
  fresh_world_def plain_opts_def

lemma observe_Some:
  "observe r = Some (x, tr) \<Longrightarrow> \<exists>w'. r = Some (x, w') \<and> trace w' = tr"
  by (auto simp: observe_def)

text \<open>
  Claim C1, as stated, at a concrete input: the service answers the first request with
  a page of two members that declares no total. The fetch stops after this one page
  and one request, although the page is not empty and no declared total was reached.
\<close>

theorem fetch_stops_without_total_counterexample:
  "observe (fetchValueSetExpansion 5 ''1.2'' (plain_opts 3)
      (fresh_world (always (Inr (page_of [''a'', ''b''] None)))))
     = Some (Inr [page_of [''a'', ''b''] None], [NetGet ''/ValueSet/1.2/$expand?offset=0&count=2''])
   \<and> n_contains (page_of [''a'', ''b''] None) = 2
   \<and> page_total (page_of [''a'', ''b''] None) = None"
  by (simp add: fetch_eval)

lemma pages_go_positive: "pages_go got ps \<Longrightarrow> p \<in> set ps \<Longrightarrow> 0 < n_contains p"
  by (induction got ps rule: pages_go.induct) (auto dest: not_stop_contains)

lemma pages_go_increasing:
  "pages_go got ps \<Longrightarrow>
     sorted_wrt (<) (page_offsets offset ps @ [offset + sum_list (map n_contains ps)])"
proof (induction got ps arbitrary: offset rule: pages_go.induct)
  case (1 got)
  then show ?case by simp
next
  case (2 got p ps)
  then have pos: "0 < n_contains p" and rest: "pages_go (got + n_contains p) ps"
    by (auto dest: not_stop_contains)
  have "\<forall>x \<in> set (page_offsets (offset + n_contains p) ps). offset < x"
    using pos page_offsets_lower[of _ "offset + n_contains p" ps] by fastforce
  with "2.IH"[OF rest, of "offset + n_contains p"] pos show ?case
    by (simp add: sorted_wrt_append add.assoc)
qed

lemma fetch_loop_stop:
  "fetch_page oid opts offset tries w = (Inr page, tries', w1) \<Longrightarrow>
     stop_after page (got + n_contains page) \<Longrightarrow>
     fetch_loop (Suc fuel) oid opts offset pages got tries w = Some (Inr (pages @ [page]), w1)"
  by (simp add: Let_def)

lemma fetch_loop_go:
  "fetch_page oid opts offset tries w = (Inr page, tries', w1) \<Longrightarrow>
     \<not> stop_after page (got + n_contains page) \<Longrightarrow>
     fetch_loop (Suc fuel) oid opts offset pages got tries w
       = fetch_loop fuel oid opts (offset + n_contains page) (pages @ [page]) (got + n_contains page)
           tries' w1"
  by (simp add: Let_def stop_after_def)

lemma fetch_loop_fail:
  "fetch_page oid opts offset tries w = (Inl e, tries', w1) \<Longrightarrow>
     fetch_loop (Suc fuel) oid opts offset pages got tries w = Some (Inl e, w1)"
  by simp

lemma fetch_loop_error:
  "fetch_loop fuel oid opts offset pages0 got tries w = Some (Inl e, w') \<Longrightarrow>
     \<exists>ps segs. pages_go got ps \<and> trace w' = trace w @ concat segs
       \<and> list_all2 (\<lambda>off seg. \<forall>e \<in> set seg. page_event oid opts off e)
            (page_offsets offset ps @ [offset + sum_list (map n_contains ps)]) segs"
proof (induction fuel arbitrary: offset pages0 got tries w)
  case 0
  then show ?case by simp
next
  case (Suc fuel)
  obtain x t1 w1 where fp: "fetch_page oid opts offset tries w = (x, t1, w1)"
    by (cases "fetch_page oid opts offset tries w")
  from fetch_page_events[OF fp] obtain seg where seg: "trace w1 = trace w @ seg"
    "\<forall>e \<in> set seg. page_event oid opts offset e" by blast
  show ?case
  proof (cases x)
    case (Inl e')
    with fp Suc.prems have "w' = w1" by simp
    with seg have "pages_go got [] \<and> trace w' = trace w @ concat [seg]
       \<and> list_all2 (\<lambda>off seg. \<forall>e \<in> set seg. page_event oid opts off e)
            (page_offsets offset [] @ [offset + sum_list (map n_contains [])]) [seg]"
      by simp
    then show ?thesis by blast
  next
    case (Inr page)
    show ?thesis
    proof (cases "stop_after page (got + n_contains page)")
      case True
      with fp Inr Suc.prems show ?thesis by (simp add: Let_def)
    next
      case False
      from fp Inr have fp': "fetch_page oid opts offset tries w = (Inr page, t1, w1)" by simp
      from Suc.prems
      have "fetch_loop fuel oid opts (offset + n_contains page) (pages0 @ [page])
              (got + n_contains page) t1 w1 = Some (Inl e, w')"
        by (simp only: fetch_loop_go[OF fp' False])
      from Suc.IH[OF this] obtain ps segs where n: "pages_go (got + n_contains page) ps"
        "trace w' = trace w1 @ concat segs"
        "list_all2 (\<lambda>off seg. \<forall>e \<in> set seg. page_event oid opts off e)
            (page_offsets (offset + n_contains page) ps
             @ [offset + n_contains page + sum_list (map n_contains ps)]) segs"
        by blast
      with False seg have "pages_go got (page # ps) \<and> trace w' = trace w @ concat (seg # segs)
       \<and> list_all2 (\<lambda>off seg. \<forall>e \<in> set seg. page_event oid opts off e)
            (page_offsets offset (page # ps) @ [offset + sum_list (map n_contains (page # ps))])
            (seg # segs)"
        by (simp add: add.assoc)
      then show ?thesis by blast
    qed
  qed
qed

lemma fetch_loop_out_of_fuel:
  "fetch_loop fuel oid opts offset pages0 got tries w = None \<Longrightarrow>
     \<exists>ps. length ps = fuel \<and> pages_go got ps"
proof (induction fuel arbitrary: offset pages0 got tries w)
  case 0
  have "length ([] :: valueset list) = 0 \<and> pages_go got []" by simp
  then show ?case by blast
next
  case (Suc fuel)
  obtain x t1 w1 where fp: "fetch_page oid opts offset tries w = (x, t1, w1)"
    by (cases "fetch_page oid opts offset tries w")
  show ?case
  proof (cases x)
    case (Inl e')
    with fp Suc.prems show ?thesis by simp
  next
    case (Inr page)
    show ?thesis
    proof (cases "stop_after page (got + n_contains page)")
      case True
      with fp Inr Suc.prems show ?thesis by (simp add: Let_def)
    next
      case False
      from fp Inr have fp': "fetch_page oid opts offset tries w = (Inr page, t1, w1)" by simp
      from Suc.prems
      have "fetch_loop fuel oid opts (offset + n_contains page) (pages0 @ [page])
              (got + n_contains page) t1 w1 = None"
        by (simp only: fetch_loop_go[OF fp' False])
      from Suc.IH[OF this] obtain ps where "length ps = fuel" "pages_go (got + n_contains page) ps"
        by blast
      with False have "length (page # ps) = Suc fuel \<and> pages_go got (page # ps)" by simp
      then show ?thesis by blast
    qed
  qed
qed

lemma fetch_loop_more_fuel:
  "fetch_loop fuel oid opts offset pages0 got tries w = Some r \<Longrightarrow>
     fetch_loop (fuel + k) oid opts offset pages0 got tries w = Some r"
proof (induction fuel arbitrary: offset pages0 got tries w)
  case 0
  then show ?case by simp
next
  case (Suc fuel)
  obtain x t1 w1 where fp: "fetch_page oid opts offset tries w = (x, t1, w1)"
    by (cases "fetch_page oid opts offset tries w")
  show ?case
  proof (cases x)
    case (Inl e')
    with fp Suc.prems show ?thesis by simp
  next
    case (Inr page)
    show ?thesis
    proof (cases "stop_after page (got + n_contains page)")
      case True
      with fp Inr Suc.prems show ?thesis by (simp add: Let_def)
    next
      case False
      from fp Inr have fp': "fetch_page oid opts offset tries w = (Inr page, t1, w1)" by simp
      from Suc.prems
      have "fetch_loop fuel oid opts (offset + n_contains page) (pages0 @ [page])
              (got + n_contains page) t1 w1 = Some r"
        by (simp only: fetch_loop_go[OF fp' False])
      from Suc.IH[OF this] show ?thesis by (simp only: add_Suc fetch_loop_go[OF fp' False])
    qed
  qed
qed

text \<open>
  Claim C1, amended: every expansion fetch requests its pages at strictly increasing
  offsets starting at 0, each offset being the number of members of the pages
  received before it, whether it returns its pages or fails. Whenever a page is
  received, the fetch returns at once, with this page as the last, when the page
  reports zero members, or declares no total (absent or zero), or brings the
  cumulative count of members to the declared total or beyond, and it goes on to the
  next offset otherwise; so a page that declares no total ends the fetch. A request
  that fails ends the fetch with its exception. The loop is still running after a
  number of pages only when none of them met the condition, and a fetch that has an
  outcome has the same outcome under any larger bound.
\<close>

theorem fetchValueSetExpansion_stop_rule:
  "(fetch_page oid opts offset tries w0 = (Inr page, tries', w1) \<longrightarrow>
      (stop_after page (got + n_contains page) \<longrightarrow>
         fetch_loop (Suc fuel) oid opts offset pages got tries w0 = Some (Inr (pages @ [page]), w1))
      \<and> (page_total page = None \<longrightarrow>
           fetch_loop (Suc fuel) oid opts offset pages got tries w0 = Some (Inr (pages @ [page]), w1))
      \<and> (\<not> stop_after page (got + n_contains page) \<longrightarrow>
           fetch_loop (Suc fuel) oid opts offset pages got tries w0
             = fetch_loop fuel oid opts (offset + n_contains page) (pages @ [page])
                 (got + n_contains page) tries' w1))
   \<and> (fetch_page oid opts offset tries w0 = (Inl e, tries', w1) \<longrightarrow>
        fetch_loop (Suc fuel) oid opts offset pages got tries w0 = Some (Inl e, w1))
   \<and> (fetchValueSetExpansion fuel oid opts w = Some (Inr ps, w') \<longrightarrow>
        pages_stop 0 ps
        \<and> hd (page_offsets 0 ps) = 0
        \<and> sorted_wrt (<) (page_offsets 0 ps)
        \<and> (\<exists>segs. trace w' = trace w @ concat segs
              \<and> list_all2 (\<lambda>off seg. \<forall>e \<in> set seg. page_event oid opts off e)
                   (page_offsets 0 ps) segs))
   \<and> (fetchValueSetExpansion fuel oid opts w = Some (Inl e, w') \<longrightarrow>
        (\<exists>ps segs. pages_go 0 ps
           \<and> hd (page_offsets 0 ps @ [sum_list (map n_contains ps)]) = 0
           \<and> sorted_wrt (<) (page_offsets 0 ps @ [sum_list (map n_contains ps)])
           \<and> trace w' = trace w @ concat segs
           \<and> list_all2 (\<lambda>off seg. \<forall>e \<in> set seg. page_event oid opts off e)
                (page_offsets 0 ps @ [sum_list (map n_contains ps)]) segs))
   \<and> (fetchValueSetExpansion fuel oid opts w = None \<longrightarrow>
        (\<exists>ps. length ps = fuel \<and> pages_go 0 ps))
   \<and> (fetchValueSetExpansion fuel oid opts w = Some r \<longrightarrow>
        fetchValueSetExpansion (fuel + k) oid opts w = Some r)"
proof (intro conjI impI)
  assume "fetch_page oid opts offset tries w0 = (Inr page, tries', w1)"
    and "stop_after page (got + n_contains page)"
  then show "fetch_loop (Suc fuel) oid opts offset pages got tries w0 = Some (Inr (pages @ [page]), w1)"
    by (rule fetch_loop_stop)
next
  assume fp: "fetch_page oid opts offset tries w0 = (Inr page, tries', w1)"
    and "page_total page = None"
  then have "stop_after page (got + n_contains page)" by (simp add: stop_after_def)
  with fp show "fetch_loop (Suc fuel) oid opts offset pages got tries w0 = Some (Inr (pages @ [page]), w1)"
    by (rule fetch_loop_stop)
next
  assume "fetch_page oid opts offset tries w0 = (Inr page, tries', w1)"
    and "\<not> stop_after page (got + n_contains page)"
  then show "fetch_loop (Suc fuel) oid opts offset pages got tries w0
             = fetch_loop fuel oid opts (offset + n_contains page) (pages @ [page])
                 (got + n_contains page) tries' w1"
    by (rule fetch_loop_go)
next
  assume "fetch_page oid opts offset tries w0 = (Inl e, tries', w1)"
  then show "fetch_loop (Suc fuel) oid opts offset pages got tries w0 = Some (Inl e, w1)"
    by (rule fetch_loop_fail)
next
  assume a: "fetchValueSetExpansion fuel oid opts w = Some (Inr ps, w')"
  from a fetch_loop_pages[of fuel oid opts 0 "[]" 0 0 w ps w']
  obtain segs where st: "pages_stop 0 ps" and tr: "trace w' = trace w @ concat segs"
    "list_all2 (\<lambda>off seg. \<forall>e \<in> set seg. page_event oid opts off e) (page_offsets 0 ps) segs"
    by (auto simp: fetchValueSetExpansion_def)
  from st show "pages_stop 0 ps" .
  from st have "ps \<noteq> []" by (cases ps) auto
  then show "hd (page_offsets 0 ps) = 0" by (cases ps) auto
  from pages_stop_increasing[OF st, of 0] show "sorted_wrt (<) (page_offsets 0 ps)" .
  from tr show "\<exists>segs. trace w' = trace w @ concat segs
              \<and> list_all2 (\<lambda>off seg. \<forall>e \<in> set seg. page_event oid opts off e)
                   (page_offsets 0 ps) segs"
    by blast
next
  assume a: "fetchValueSetExpansion fuel oid opts w = Some (Inl e, w')"
  from a fetch_loop_error[of fuel oid opts 0 "[]" 0 0 w e w']
  obtain ps segs where go: "pages_go 0 ps" and tr: "trace w' = trace w @ concat segs"
    "list_all2 (\<lambda>off seg. \<forall>e \<in> set seg. page_event oid opts off e)
       (page_offsets 0 ps @ [sum_list (map n_contains ps)]) segs"
    by (auto simp: fetchValueSetExpansion_def)
  have h: "hd (page_offsets 0 ps @ [sum_list (map n_contains ps)]) = 0" by (cases ps) auto
  from pages_go_increasing[OF go, of 0]
  have "sorted_wrt (<) (page_offsets 0 ps @ [sum_list (map n_contains ps)])" by simp
  with go h tr show "\<exists>ps segs. pages_go 0 ps
           \<and> hd (page_offsets 0 ps @ [sum_list (map n_contains ps)]) = 0
           \<and> sorted_wrt (<) (page_offsets 0 ps @ [sum_list (map n_contains ps)])
           \<and> trace w' = trace w @ concat segs
           \<and> list_all2 (\<lambda>off seg. \<forall>e \<in> set seg. page_event oid opts off e)
                (page_offsets 0 ps @ [sum_list (map n_contains ps)]) segs"
    by blast
next
  assume "fetchValueSetExpansion fuel oid opts w = None"
  then show "\<exists>ps. length ps = fuel \<and> pages_go 0 ps"
    by (simp add: fetchValueSetExpansion_def fetch_loop_out_of_fuel)
next
  assume "fetchValueSetExpansion fuel oid opts w = Some r"
  then show "fetchValueSetExpansion (fuel + k) oid opts w = Some r"
    by (simp add: fetchValueSetExpansion_def fetch_loop_more_fuel)
qed

text \<open>
  The amended claim C1 on three fetches: one of two pages (the first holds two of
  three members, the second the third); one that receives two of four members and
  then 404 for the request at offset 2; and one whose first page declares no total.
\<close>

theorem fetchValueSetExpansion_stop_rule_witness:
  "observe (fetchValueSetExpansion 5 ''1.2'' (plain_opts 3) two_pages)
     = Some (Inr [page_of [''a'', ''b''] (Some 3), page_of [''c''] (Some 3)],
             [NetGet ''/ValueSet/1.2/$expand?offset=0&count=2'',
              NetGet ''/ValueSet/1.2/$expand?offset=2&count=2''])
   \<and> observe (fetchValueSetExpansion (5 + 4) ''1.2'' (plain_opts 3) two_pages)
       = observe (fetchValueSetExpansion 5 ''1.2'' (plain_opts 3) two_pages)
   \<and> pages_stop 0 [page_of [''a'', ''b''] (Some 3), page_of [''c''] (Some 3)]
   \<and> sorted_wrt (<) (page_offsets 0 [page_of [''a'', ''b''] (Some 3), page_of [''c''] (Some 3)])
   \<and> page_offsets 0 [page_of [''a'', ''b''] (Some 3), page_of [''c''] (Some 3)] = [0, 2]
   \<and> observe (fetchValueSetExpansion 5 ''1.2'' (plain_opts 3) page_then_404)
       = Some (Inl (http_error 404),
               [NetGet ''/ValueSet/1.2/$expand?offset=0&count=2'',
                NetGet ''/ValueSet/1.2/$expand?offset=2&count=2''])
   \<and> (\<exists>ps. pages_go 0 ps \<and> sorted_wrt (<) (page_offsets 0 ps @ [sum_list (map n_contains ps)]))
   \<and> (\<exists>w1. fetch_loop (Suc 0) ''1.2'' (plain_opts 3) 0 [] 0 0
              (fresh_world (always (Inr (page_of [''a'', ''b''] None))))
            = Some (Inr [page_of [''a'', ''b''] None], w1))"
proof -
  let ?pages = "[page_of [''a'', ''b''] (Some 3), page_of [''c''] (Some 3)]"
  let ?nt = "fresh_world (always (Inr (page_of [''a'', ''b''] None)))"
  have two: "observe (fetchValueSetExpansion 5 ''1.2'' (plain_opts 3) two_pages)
      = Some (Inr ?pages, [NetGet ''/ValueSet/1.2/$expand?offset=0&count=2'',
                           NetGet ''/ValueSet/1.2/$expand?offset=2&count=2''])"
    by (simp add: fetch_eval two_pages_def)
  then obtain w' where r: "fetchValueSetExpansion 5 ''1.2'' (plain_opts 3) two_pages = Some (Inr ?pages, w')"
    by (auto dest: observe_Some)
  note t = fetchValueSetExpansion_stop_rule[where oid = "''1.2''" and opts = "plain_opts 3"]
  from t[where fuel = 5 and w = two_pages and ps = ?pages and w' = w'] r
  have st: "pages_stop 0 ?pages" "sorted_wrt (<) (page_offsets 0 ?pages)" by blast+
  from t[where fuel = 5 and w = two_pages and r = "(Inr ?pages, w')" and k = 4] r
  have more: "observe (fetchValueSetExpansion (5 + 4) ''1.2'' (plain_opts 3) two_pages)
       = observe (fetchValueSetExpansion 5 ''1.2'' (plain_opts 3) two_pages)"
    by simp
  have offs: "page_offsets 0 ?pages = [0, 2]"
    by (simp add: n_contains_def page_of_def)
  have err: "observe (fetchValueSetExpansion 5 ''1.2'' (plain_opts 3) page_then_404)
       = Some (Inl (http_error 404),
               [NetGet ''/ValueSet/1.2/$expand?offset=0&count=2'',
                NetGet ''/ValueSet/1.2/$expand?offset=2&count=2''])"
    by (simp add: fetch_eval page_then_404_def)
  then obtain w2 where e: "fetchValueSetExpansion 5 ''1.2'' (plain_opts 3) page_then_404
      = Some (Inl (http_error 404), w2)"
    by (auto dest: observe_Some)
  from t[where fuel = 5 and w = page_then_404 and e = "http_error 404" and w' = w2] e
  have go: "\<exists>ps. pages_go 0 ps \<and> sorted_wrt (<) (page_offsets 0 ps @ [sum_list (map n_contains ps)])"
    by blast
  obtain x t1 w1 where fp: "fetch_page ''1.2'' (plain_opts 3) 0 0 ?nt = (x, t1, w1)"
    by (cases "fetch_page ''1.2'' (plain_opts 3) 0 0 ?nt")
  have "fst (fetch_page ''1.2'' (plain_opts 3) 0 0 ?nt) = Inr (page_of [''a'', ''b''] None)"
    by (simp add: fetch_eval)
  with fp have fp': "fetch_page ''1.2'' (plain_opts 3) 0 0 ?nt = (Inr (page_of [''a'', ''b''] None), t1, w1)"
    by simp
  have nt: "page_total (page_of [''a'', ''b''] None) = None"
    by (simp add: page_total_def page_of_def)
  from t[where offset = 0 and tries = 0 and ?w0.0 = ?nt and page = "page_of [''a'', ''b''] None"
      and tries' = t1 and ?w1.0 = w1 and fuel = 0 and pages = "[]" and got = 0] fp' nt
  have "fetch_loop (Suc 0) ''1.2'' (plain_opts 3) 0 [] 0 0 ?nt
      = Some (Inr [page_of [''a'', ''b''] None], w1)"
    by simp
  with two more st offs err go show ?thesis by blast
qed

text \<open>
  Claim C5 at the failing input: at most three attempts are configured; the first page
  is answered 503, 503 and then with two of four members, the next page with 503. The
  request for the second page is attempted once, is not retried, and the fetch fails,
  because the attempts of the first page have used up the counter; the wait after
  that single failure is 8000 ms where a first retry would wait 2000 ms.
\<close>

theorem fetch_retry_counter_not_reset:
  "observe (fetchValueSetExpansion 5 ''1.2'' (plain_opts 3)
      (fresh_world (scripted [Inl (http_error 503), Inl (http_error 503),
                              Inr (page_of [''a'', ''b''] (Some 4)), Inl (http_error 503)]
                             (Inr (page_of [''c'', ''d''] (Some 4))))))
     = Some (Inl (Error ''Failed to fetch expansion after 3 retries.'' None),
             [NetGet ''/ValueSet/1.2/$expand?offset=0&count=2'', Sleep 2000,
              NetGet ''/ValueSet/1.2/$expand?offset=0&count=2'', Sleep 4000,
              NetGet ''/ValueSet/1.2/$expand?offset=0&count=2'',
              NetGet ''/ValueSet/1.2/$expand?offset=2&count=2'', Sleep 8000])"
  by (simp add: fetch_eval)

text \<open>
  Claim C6, as stated, at two concrete inputs: a service that always answers 503 and
  one that always answers 429, with two attempts allowed. Both fetches fail with the
  same error value, which has no response and whose message names only the configured
  count, although the last errors observed differ.
\<close>

theorem retry_exhausted_counterexample:
  "observe (fetchValueSetExpansion 5 ''1.2'' (plain_opts 2) (fresh_world (always (Inl (http_error 503)))))
     = Some (Inl (Error ''Failed to fetch expansion after 2 retries.'' None),
             [NetGet ''/ValueSet/1.2/$expand?offset=0&count=2'', Sleep 2000,
              NetGet ''/ValueSet/1.2/$expand?offset=0&count=2'', Sleep 4000])
   \<and> observe (fetchValueSetExpansion 5 ''1.2'' (plain_opts 2) (fresh_world (always (Inl (http_error 429)))))
     = Some (Inl (Error ''Failed to fetch expansion after 2 retries.'' None),
             [NetGet ''/ValueSet/1.2/$expand?offset=0&count=2'', Sleep 2000,
              NetGet ''/ValueSet/1.2/$expand?offset=0&count=2'', Sleep 4000])
   \<and> http_error 503 \<noteq> http_error 429"
  by (simp add: fetch_eval)

text \<open>
  Claim C6, amended: when the page is not in the cache and every request that the
  remaining attempts allow is answered with a retryable failure (status 500 or above,
  or 429), the fetch fails with a plain error that has no response and whose message
  is \<open>Failed to fetch expansion after N retries.\<close> for the configured count \<open>N\<close>,
  whatever the failures observed were; so it does when no attempt remains.
\<close>

theorem fetch_retry_exhausted:
  assumes "cache_hit oid opts offset w = None" and "\<not> f_dryRun opts"
    and "\<forall>i < f_retry opts - tries.
           \<exists>e. server w (net_calls w + i) (expand_url oid opts offset) = Inl e \<and> retryable e"
  shows "\<exists>w'. fetch_loop (Suc fuel) oid opts offset pages got tries w
           = Some (Inl (Error (''Failed to fetch expansion after '' @ string_of_nat (f_retry opts)
                               @ '' retries.'') None), w')"
proof -
  obtain x t1 w1 where rl:
    "retry_loop (expand_url oid opts offset) (cacheFile oid opts offset) opts tries w = (x, t1, w1)"
    by (cases "retry_loop (expand_url oid opts offset) (cacheFile oid opts offset) opts tries w")
  with retry_loop_exhausted[OF assms(3), of "cacheFile oid opts offset"]
  have "x = Inr None" by simp
  with rl assms(1,2) show ?thesis by (simp add: fetch_page_def)
qed

text \<open>
  The amended claim C6 on a service that answers 503 twice and would answer the third
  call with a page, with two attempts allowed, and on a healthy service with no
  attempt allowed.
\<close>

theorem fetch_retry_exhausted_witness:
  "(\<exists>w'. fetch_loop (Suc 0) ''1.2'' (plain_opts 2) 0 [] 0 0
            (fresh_world (scripted [Inl (http_error 503), Inl (http_error 503)]
                                   (Inr (page_of [''a''] None))))
     = Some (Inl (Error ''Failed to fetch expansion after 2 retries.'' None), w'))
   \<and> (\<exists>w'. fetch_loop (Suc 0) ''1.2'' (plain_opts 0) 0 [] 0 0
              (fresh_world (always (Inr (page_of [''a''] None))))
       = Some (Inl (Error ''Failed to fetch expansion after 0 retries.'' None), w'))"
proof -
  let ?w = "fresh_world (scripted [Inl (http_error 503), Inl (http_error 503)] (Inr (page_of [''a''] None)))"
  let ?h = "fresh_world (always (Inr (page_of [''a''] None)))"
  have h1: "cache_hit ''1.2'' (plain_opts 2) 0 ?w = None" "cache_hit ''1.2'' (plain_opts 0) 0 ?h = None"
    by (simp_all add: cache_hit_def cacheFile_def plain_opts_def truthy_def)
  have h2: "\<not> f_dryRun (plain_opts 2)" "\<not> f_dryRun (plain_opts 0)"
    by (simp_all add: plain_opts_def)
  have h3: "\<forall>i < f_retry (plain_opts 2) - 0.
      \<exists>e. server ?w (net_calls ?w + i) (expand_url ''1.2'' (plain_opts 2) 0) = Inl e \<and> retryable e"
  proof (intro allI impI)
    fix i :: nat assume "i < f_retry (plain_opts 2) - 0"
    then have "i = 0 \<or> i = 1" by (auto simp: plain_opts_def)
    then show "\<exists>e. server ?w (net_calls ?w + i) (expand_url ''1.2'' (plain_opts 2) 0) = Inl e \<and> retryable e"
      by (auto simp: fresh_world_def scripted_def net_calls_def http_error_def retryable_def)
  qed
  have h4: "\<forall>i < f_retry (plain_opts 0) - 0.
      \<exists>e. server ?h (net_calls ?h + i) (expand_url ''1.2'' (plain_opts 0) 0) = Inl e \<and> retryable e"
    by (simp add: plain_opts_def)
  have s2: "string_of_nat (f_retry (plain_opts 2)) = ''2''" "string_of_nat (f_retry (plain_opts 0)) = ''0''"
    by (simp_all add: plain_opts_def digit_char_def)
  from fetch_retry_exhausted[OF h1(1) h2(1) h3, of 0 "[]" 0] s2(1)
  have a: "\<exists>w'. fetch_loop (Suc 0) ''1.2'' (plain_opts 2) 0 [] 0 0 ?w
     = Some (Inl (Error ''Failed to fetch expansion after 2 retries.'' None), w')" by simp
  from fetch_retry_exhausted[OF h1(2) h2(2) h4, of 0 "[]" 0] s2(2)
  have b: "\<exists>w'. fetch_loop (Suc 0) ''1.2'' (plain_opts 0) 0 [] 0 0 ?h
     = Some (Inl (Error ''Failed to fetch expansion after 0 retries.'' None), w')" by simp
  from a b show ?thesis by blast
qed

subsection \<open>The page cache\<close>

lemma fetch_page_hit:
  assumes "cacheFile oid opts offset = Some cf" and "files w cf = Some page"
  shows "fetch_page oid opts offset tries w = (Inr page, tries, emit (FileRead cf) w)"
proof -
  from assms have "cache_hit oid opts offset w = Some (cf, page)" by (simp add: cache_hit_Some)
  then show ?thesis by (simp add: fetch_page_def)
qed

lemma fetch_page_miss:
  assumes "cacheFile oid opts offset = Some cf" and "files w cf = None"
    and "fetch_page oid opts offset tries w = (Inr page, tries', w')"
  shows "files w' cf = Some page
    \<and> (\<exists>evs. trace w' = trace w @ evs @ [NetGet (expand_url oid opts offset), FileWrite cf page])"
proof -
  from assms(1,2) have miss: "cache_hit oid opts offset w = None" by (simp add: cache_hit_None)
  obtain x t1 w1 where rl:
    "retry_loop (expand_url oid opts offset) (cacheFile oid opts offset) opts tries w = (x, t1, w1)"
    by (cases "retry_loop (expand_url oid opts offset) (cacheFile oid opts offset) opts tries w")
  with assms(3) miss have "x = Inr (Some page)" "w' = w1"
    by (auto simp: fetch_page_def split: if_splits sum.splits option.splits)
  with rl retry_loop_success[of "expand_url oid opts offset" "cacheFile oid opts offset" opts tries w
      page t1 w1 cf] assms(1) cacheFile_Some_truthy[OF assms(1)]
  show ?thesis by simp
qed

lemma fetch_page_cached_after:
  assumes "cacheFile oid opts offset = Some cf"
    and "fetch_page oid opts offset tries w = (Inr page, tries', w')"
  shows "files w' cf = Some page"
proof (cases "files w cf")
  case None
  from fetch_page_miss[OF assms(1) None assms(2)] show ?thesis by simp
next
  case (Some p)
  from fetch_page_hit[OF assms(1) Some, of tries] assms(2)
  have "w' = emit (FileRead cf) w" "page = p" by simp_all
  with Some show ?thesis by simp
qed

text \<open>
  Claim C7: with a cache directory, the cache file of the page key is looked up first.
  When it exists its content is the page, the only effect is the read of that file
  (no request, no wait) and the retry counter is untouched. When it does not exist
  and a page is obtained, the page was received from the service and written to the
  cache file as the very next effect, which is the last effect before the page is
  returned to the loop that collects the pages for the merger.
\<close>

theorem fetch_page_cache_first:
  assumes "cacheFile oid opts offset = Some cf"
  shows "(files w cf = Some page \<longrightarrow>
            fetch_page oid opts offset tries w = (Inr page, tries, emit (FileRead cf) w))
    \<and> (files w cf = None \<and> fetch_page oid opts offset tries w = (Inr page', tries', w') \<longrightarrow>
          files w' cf = Some page'
          \<and> (\<exists>evs. trace w' = trace w @ evs @ [NetGet (expand_url oid opts offset), FileWrite cf page']))"
  using fetch_page_hit[OF assms] fetch_page_miss[OF assms] by blast

lemma cached_opts_fields [simp]:
  "f_cacheDir (cached_opts flt) = Some ''c''"
  "f_dryRun (cached_opts flt) = False"
  "f_retry (cached_opts flt) = 3"
  "f_filter (cached_opts flt) = flt"
  by (simp_all add: cached_opts_def)

lemma cached_opts_urls:
  "expand_url ''1.2'' (cached_opts None) 0 = ''/ValueSet/1.2/$expand?offset=0&count=2''"
  "expand_url ''1.2'' (cached_opts (Some ''asp'')) 0 = ''/ValueSet/1.2/$expand?offset=0&count=2&filter=asp''"
  "expand_url ''1.2'' (cached_opts (Some ''ibu'')) 0 = ''/ValueSet/1.2/$expand?offset=0&count=2&filter=ibu''"
  by (simp_all add: expand_url_def expand_params_def cached_opts_def truthy_def or_else_def
      encodeURIComponent_def unreserved_def digit_char_def)

lemma cached_opts_file:
  "cacheFile ''1.2'' (cached_opts flt) 0 = Some ''c/vsac-1.2-latest-page-0.json''"
proof -
  have "path_join ''c'' ''vsac-1.2-latest-page-0.json'' = ''c'' @ ''/'' @ ''vsac-1.2-latest-page-0.json''"
    by (rule path_join_plain) simp_all
  then show ?thesis
    by (simp add: cacheFile_def cached_opts_def truthy_def or_else_def digit_char_def)
qed

text \<open>
  Claim C7 on a miss followed by a hit: the first request for the page writes the
  cache file, the second reads it and asks the service nothing.
\<close>

theorem fetch_page_cache_first_witness:
  "files (snd (snd (fetch_page ''1.2'' (cached_opts None) 0 0 (fresh_world by_filter))))
      ''c/vsac-1.2-latest-page-0.json'' = Some (page_of [''ibuprofen''] None)
   \<and> fetch_page ''1.2'' (cached_opts None) 0 0
        (snd (snd (fetch_page ''1.2'' (cached_opts None) 0 0 (fresh_world by_filter))))
      = (Inr (page_of [''ibuprofen''] None), 0,
         emit (FileRead ''c/vsac-1.2-latest-page-0.json'')
           (snd (snd (fetch_page ''1.2'' (cached_opts None) 0 0 (fresh_world by_filter)))))"
proof -
  let ?w = "fresh_world by_filter"
  obtain r t w1 where fp: "fetch_page ''1.2'' (cached_opts None) 0 0 ?w = (r, t, w1)"
    by (cases "fetch_page ''1.2'' (cached_opts None) 0 0 ?w")
  have miss: "files ?w ''c/vsac-1.2-latest-page-0.json'' = None"
    by (simp add: fresh_world_def no_file_def)
  have "fst (fetch_page ''1.2'' (cached_opts None) 0 0 ?w) = Inr (page_of [''ibuprofen''] None)"
    by (simp add: fetch_page_def cache_hit_def cached_opts_file cached_opts_urls fresh_world_def
        no_file_def truthy_def try_get_def http_get_def by_filter_def writeFileSync_def never_def)
  with fp have r: "r = Inr (page_of [''ibuprofen''] None)" by simp
  from fetch_page_cache_first[OF cached_opts_file, where w = ?w and tries = 0
      and page' = "page_of [''ibuprofen''] None" and tries' = t and w' = w1]
    miss fp r
  have stored: "files w1 ''c/vsac-1.2-latest-page-0.json'' = Some (page_of [''ibuprofen''] None)"
    by simp
  from fetch_page_cache_first[OF cached_opts_file, where w = w1 and tries = 0
      and page = "page_of [''ibuprofen''] None"] stored
  have "fetch_page ''1.2'' (cached_opts None) 0 0 w1
      = (Inr (page_of [''ibuprofen''] None), 0, emit (FileRead ''c/vsac-1.2-latest-page-0.json'') w1)"
    by simp
  with stored fp show ?thesis by simp
qed

lemma cacheFile_filter [simp]:
  "cacheFile oid (opts\<lparr>f_filter := flt\<rparr>) offset = cacheFile oid opts offset"
  by (simp add: cacheFile_def)

text \<open>
  Claim C10: the name of the cache file does not depend on the filter, while the
  request URL ends in the filter; so a page that a fetch obtained under one filter is
  what a fetch of the same identifier, version and offset under any other filter
  returns, from the cache file alone, in every world where that file is as the first
  fetch left it, whatever the service would answer.
\<close>

theorem cache_key_ignores_filter:
  "cacheFile oid (opts\<lparr>f_filter := flt2\<rparr>) offset = cacheFile oid opts offset
   \<and> (flt \<noteq> [] \<longrightarrow>
        expand_url oid (opts\<lparr>f_filter := Some flt\<rparr>) offset
          = expand_url oid (opts\<lparr>f_filter := None\<rparr>) offset @ ''&filter='' @ encodeURIComponent flt)
   \<and> (cacheFile oid opts offset = Some cf
        \<and> fetch_page oid opts offset tries w = (Inr page, tries', w')
        \<and> files w2 cf = files w' cf
      \<longrightarrow> fetch_page oid (opts\<lparr>f_filter := flt2\<rparr>) offset tries2 w2
            = (Inr page, tries2, emit (FileRead cf) w2))"
proof (intro conjI impI)
  show "cacheFile oid (opts\<lparr>f_filter := flt2\<rparr>) offset = cacheFile oid opts offset" by simp
next
  assume "flt \<noteq> []"
  then show "expand_url oid (opts\<lparr>f_filter := Some flt\<rparr>) offset
          = expand_url oid (opts\<lparr>f_filter := None\<rparr>) offset @ ''&filter='' @ encodeURIComponent flt"
    by (simp add: expand_url_def expand_params_def truthy_def or_else_def join_snoc)
next
  assume a: "cacheFile oid opts offset = Some cf
        \<and> fetch_page oid opts offset tries w = (Inr page, tries', w')
        \<and> files w2 cf = files w' cf"
  then have "files w2 cf = Some page"
    using fetch_page_cached_after[of oid opts offset cf tries w page tries' w'] by simp
  moreover from a have "cacheFile oid (opts\<lparr>f_filter := flt2\<rparr>) offset = Some cf" by simp
  ultimately show "fetch_page oid (opts\<lparr>f_filter := flt2\<rparr>) offset tries2 w2
            = (Inr page, tries2, emit (FileRead cf) w2)"
    by (rule fetch_page_hit[rotated])
qed

text \<open>
  Claim C10 on two fetches: the first, with filter \<open>asp\<close>, is answered and cached; the
  second, with filter \<open>ibu\<close>, returns the page of the first from the cache, although
  the service would answer its request with a different page.
\<close>

theorem cache_key_ignores_filter_witness:
  "fetch_page ''1.2'' (cached_opts (Some ''ibu'')) 0 0
        (snd (snd (fetch_page ''1.2'' (cached_opts (Some ''asp'')) 0 0 (fresh_world by_filter))))
      = (Inr (page_of [''aspirin''] None), 0,
         emit (FileRead ''c/vsac-1.2-latest-page-0.json'')
           (snd (snd (fetch_page ''1.2'' (cached_opts (Some ''asp'')) 0 0 (fresh_world by_filter)))))
   \<and> by_filter 1 (expand_url ''1.2'' (cached_opts (Some ''ibu'')) 0) = Inr (page_of [''ibuprofen''] None)
   \<and> expand_url ''1.2'' (cached_opts (Some ''ibu'')) 0
        = expand_url ''1.2'' (cached_opts None) 0 @ ''&filter=ibu''"
proof -
  let ?w = "fresh_world by_filter"
  let ?opts = "cached_opts (Some ''asp'')"
  obtain r t w1 where fp: "fetch_page ''1.2'' ?opts 0 0 ?w = (r, t, w1)"
    by (cases "fetch_page ''1.2'' ?opts 0 0 ?w")
  have "fst (fetch_page ''1.2'' ?opts 0 0 ?w) = Inr (page_of [''aspirin''] None)"
    by (simp add: fetch_page_def cache_hit_def cached_opts_file cached_opts_urls fresh_world_def
        no_file_def truthy_def try_get_def http_get_def by_filter_def writeFileSync_def never_def)
  with fp have r: "fetch_page ''1.2'' ?opts 0 0 ?w = (Inr (page_of [''aspirin''] None), t, w1)"
    by simp
  have o: "?opts\<lparr>f_filter := Some ''ibu''\<rparr> = cached_opts (Some ''ibu'')"
    "?opts\<lparr>f_filter := None\<rparr> = cached_opts None"
    by (simp_all add: cached_opts_def)
  have enc: "encodeURIComponent ''ibu'' = ''ibu''"
    by (simp add: encodeURIComponent_def unreserved_def)
  note k = cache_key_ignores_filter[where oid = "''1.2''" and opts = ?opts
      and ?flt2.0 = "Some ''ibu''" and offset = 0 and flt = "''ibu''"
      and cf = "''c/vsac-1.2-latest-page-0.json''" and tries = 0 and w = ?w
      and page = "page_of [''aspirin''] None" and tries' = t and w' = w1 and ?w2.0 = w1
      and ?tries2.0 = 0]
  from k r cached_opts_file[of "Some ''asp''"] o
  have one: "fetch_page ''1.2'' (cached_opts (Some ''ibu'')) 0 0 w1
      = (Inr (page_of [''aspirin''] None), 0, emit (FileRead ''c/vsac-1.2-latest-page-0.json'') w1)"
    by simp
  from k o enc
  have two: "expand_url ''1.2'' (cached_opts (Some ''ibu'')) 0
        = expand_url ''1.2'' (cached_opts None) 0 @ ''&filter=ibu''"
    by simp
  have three: "by_filter 1 (expand_url ''1.2'' (cached_opts (Some ''ibu'')) 0)
      = Inr (page_of [''ibuprofen''] None)"
    by (simp add: by_filter_def cached_opts_urls)
  from one two three fp show ?thesis by simp
qed

section \<open>Properties of the upload stage\<close>

lemma net_events_emit [simp]:
  "net_events (emit e w) = (if is_net e then net_events w @ [e] else net_events w)"
  by (simp add: net_events_def)

lemma http_post_fields:
  "http_post url body w = (r, w') \<Longrightarrow>
     r = hapi w (net_calls w) url body \<and> w' = emit (NetPost url body) w"
  by (auto simp: http_post_def)

lemma post_each_calls:
  "post_each baseUrl False rs w = (res, w') \<Longrightarrow>
     (res = None
        \<and> (\<forall>i < length rs. hapi w (net_calls w + i) (valueset_url baseUrl) [rs ! i] = None)
        \<and> net_events w' = net_events w @ map (\<lambda>r. NetPost (valueset_url baseUrl) [r]) rs)
     \<or> (\<exists>j e. j < length rs \<and> res = Some e
           \<and> hapi w (net_calls w + j) (valueset_url baseUrl) [rs ! j] = Some e
           \<and> (\<forall>i < j. hapi w (net_calls w + i) (valueset_url baseUrl) [rs ! i] = None)
           \<and> net_events w'
               = net_events w @ map (\<lambda>r. NetPost (valueset_url baseUrl) [r]) (take (Suc j) rs))"
proof (induction rs arbitrary: w)
  case Nil
  then show ?case by simp
next
  case (Cons r rs)
  let ?url = "valueset_url baseUrl"
  let ?w1 = "emit (NetPost ?url [r]) w"
  show ?case
  proof (cases "hapi w (net_calls w) ?url [r]")
    case (Some e)
    with Cons.prems have "res = Some e" "w' = ?w1" by (simp_all add: http_post_def)
    with Some have "0 < length (r # rs) \<and> res = Some e
           \<and> hapi w (net_calls w + 0) ?url [(r # rs) ! 0] = Some e
           \<and> (\<forall>i < (0::nat). hapi w (net_calls w + i) ?url [(r # rs) ! i] = None)
           \<and> net_events w' = net_events w @ map (\<lambda>r. NetPost ?url [r]) (take (Suc 0) (r # rs))"
      by simp
    then show ?thesis by blast
  next
    case None
    let ?w2 = "emit (ConsoleLog ''ValueSet POST response'') ?w1"
    have nc: "net_calls ?w2 = Suc (net_calls w)" "hapi ?w2 = hapi w"
      "net_events ?w2 = net_events w @ [NetPost ?url [r]]"
      by simp_all
    from None Cons.prems have "post_each baseUrl False rs ?w2 = (res, w')"
      by (simp add: http_post_def)
    from Cons.IH[OF this] show ?thesis
    proof (elim disjE conjE exE)
      assume a: "res = None"
        "\<forall>i < length rs. hapi ?w2 (net_calls ?w2 + i) ?url [rs ! i] = None"
        "net_events w' = net_events ?w2 @ map (\<lambda>r. NetPost ?url [r]) rs"
      have "\<forall>i < length (r # rs). hapi w (net_calls w + i) ?url [(r # rs) ! i] = None"
      proof (intro allI impI)
        fix i assume "i < length (r # rs)"
        then show "hapi w (net_calls w + i) ?url [(r # rs) ! i] = None"
          using None a(2) nc by (cases i) auto
      qed
      moreover from a(3) nc
      have "net_events w' = net_events w @ map (\<lambda>r. NetPost ?url [r]) (r # rs)" by simp
      ultimately show ?thesis using a(1) by blast
    next
      fix j e
      assume a: "j < length rs" "res = Some e"
        "hapi ?w2 (net_calls ?w2 + j) ?url [rs ! j] = Some e"
        "\<forall>i < j. hapi ?w2 (net_calls ?w2 + i) ?url [rs ! i] = None"
        "net_events w' = net_events ?w2 @ map (\<lambda>r. NetPost ?url [r]) (take (Suc j) rs)"
      have "\<forall>i < Suc j. hapi w (net_calls w + i) ?url [(r # rs) ! i] = None"
      proof (intro allI impI)
        fix i assume "i < Suc j"
        then show "hapi w (net_calls w + i) ?url [(r # rs) ! i] = None"
          using None a(4) nc by (cases i) auto
      qed
      moreover from a(3) nc
      have "hapi w (net_calls w + Suc j) ?url [(r # rs) ! Suc j] = Some e" by simp
      moreover from a(5) nc
      have "net_events w' = net_events w @ map (\<lambda>r. NetPost ?url [r]) (take (Suc (Suc j)) (r # rs))"
        by simp
      moreover from a(1) have "Suc j < length (r # rs)" by simp
      ultimately show ?thesis using a(2) by blast
    qed
  qed
qed

text \<open>
  Claim C2, as stated, at a concrete input: two resources in per-resource mode, and a
  store that rejects the first submission and would accept the second. The failure
  is returned to the caller as an exception, nothing is logged, and the second
  resource is never submitted.
\<close>

theorem per_resource_upload_counterexample:
  "map_prod id trace
      (postValueSetsToHapi ''http://h/fhir'' [page_of [''a''] None, page_of [''b''] None] False False
         (store_world reject_first))
     = (Some (http_error 500), [NetPost ''http://h/fhir/ValueSet'' [page_of [''a''] None]])
   \<and> reject_first 1 ''http://h/fhir/ValueSet'' [page_of [''b''] None] = None"
  by (simp add: postValueSetsToHapi_def http_post_def store_world_def reject_first_def emit_def
      net_calls_def valueset_url_def)

text \<open>
  Claim C2, amended: outside a dry run, per-resource mode submits the resources one
  call each, in order, to \<open><base>/ValueSet\<close>, up to and including the first
  submission that fails; that failure is the outcome of the upload and the resources
  after it are not submitted; the upload succeeds, with every resource submitted,
  exactly when no submission fails. Bundled mode makes exactly one call, carrying all
  the resources, and the outcome of that call is the outcome of the upload.
\<close>

theorem upload_modes:
  "(postValueSetsToHapi baseUrl rs False False w = (res, w') \<longrightarrow>
      (res = None
         \<and> (\<forall>i < length rs. hapi w (net_calls w + i) (valueset_url baseUrl) [rs ! i] = None)
         \<and> net_events w' = net_events w @ map (\<lambda>r. NetPost (valueset_url baseUrl) [r]) rs)
      \<or> (\<exists>j e. j < length rs \<and> res = Some e
            \<and> hapi w (net_calls w + j) (valueset_url baseUrl) [rs ! j] = Some e
            \<and> (\<forall>i < j. hapi w (net_calls w + i) (valueset_url baseUrl) [rs ! i] = None)
            \<and> net_events w'
                = net_events w @ map (\<lambda>r. NetPost (valueset_url baseUrl) [r]) (take (Suc j) rs)))
   \<and> (postValueSetsToHapi baseUrl rs True False w = (res2, w2) \<longrightarrow>
        net_events w2 = net_events w @ [NetPost baseUrl rs]
        \<and> res2 = hapi w (net_calls w) baseUrl rs)"
proof (intro conjI impI)
  assume "postValueSetsToHapi baseUrl rs False False w = (res, w')"
  then have "post_each baseUrl False rs w = (res, w')" by (simp add: postValueSetsToHapi_def)
  then show "(res = None
         \<and> (\<forall>i < length rs. hapi w (net_calls w + i) (valueset_url baseUrl) [rs ! i] = None)
         \<and> net_events w' = net_events w @ map (\<lambda>r. NetPost (valueset_url baseUrl) [r]) rs)
      \<or> (\<exists>j e. j < length rs \<and> res = Some e
            \<and> hapi w (net_calls w + j) (valueset_url baseUrl) [rs ! j] = Some e
            \<and> (\<forall>i < j. hapi w (net_calls w + i) (valueset_url baseUrl) [rs ! i] = None)
            \<and> net_events w'
                = net_events w @ map (\<lambda>r. NetPost (valueset_url baseUrl) [r]) (take (Suc j) rs))"
    by (rule post_each_calls)
next
  assume a: "postValueSetsToHapi baseUrl rs True False w = (res2, w2)"
  then show "net_events w2 = net_events w @ [NetPost baseUrl rs]"
    by (auto simp: postValueSetsToHapi_def http_post_def split: option.splits)
  from a show "res2 = hapi w (net_calls w) baseUrl rs"
    by (auto simp: postValueSetsToHapi_def http_post_def split: option.splits)
qed

text \<open>
  The amended claim C2 on three resources: a store that accepts everything receives
  three calls in per-resource mode and one call in bundled mode; a store that rejects
  its second call receives two calls in per-resource mode, and the upload fails with
  the failure of the second.
\<close>

theorem upload_modes_witness:
  "(\<exists>w'. postValueSetsToHapi ''http://h'' [page_of [''a''] None, page_of [''b''] None, page_of [''c''] None]
             False False (store_world accept_all) = (None, w')
        \<and> net_events w' = [NetPost ''http://h/ValueSet'' [page_of [''a''] None],
                            NetPost ''http://h/ValueSet'' [page_of [''b''] None],
                            NetPost ''http://h/ValueSet'' [page_of [''c''] None]])
   \<and> (\<exists>w2. postValueSetsToHapi ''http://h'' [page_of [''a''] None, page_of [''b''] None, page_of [''c''] None]
             True False (store_world accept_all) = (None, w2)
        \<and> net_events w2
            = [NetPost ''http://h'' [page_of [''a''] None, page_of [''b''] None, page_of [''c''] None]])
   \<and> (\<exists>w3. postValueSetsToHapi ''http://h'' [page_of [''a''] None, page_of [''b''] None, page_of [''c''] None]
             False False (store_world reject_second) = (Some (http_error 500), w3)
        \<and> net_events w3 = [NetPost ''http://h/ValueSet'' [page_of [''a''] None],
                            NetPost ''http://h/ValueSet'' [page_of [''b''] None]])"
proof -
  let ?rs = "[page_of [''a''] None, page_of [''b''] None, page_of [''c''] None]"
  let ?w = "store_world accept_all"
  let ?v = "store_world reject_second"
  obtain res w' where p: "postValueSetsToHapi ''http://h'' ?rs False False ?w = (res, w')"
    by (cases "postValueSetsToHapi ''http://h'' ?rs False False ?w")
  obtain res2 w2 where b: "postValueSetsToHapi ''http://h'' ?rs True False ?w = (res2, w2)"
    by (cases "postValueSetsToHapi ''http://h'' ?rs True False ?w")
  obtain res3 w3 where c: "postValueSetsToHapi ''http://h'' ?rs False False ?v = (res3, w3)"
    by (cases "postValueSetsToHapi ''http://h'' ?rs False False ?v")
  have url: "valueset_url ''http://h'' = ''http://h/ValueSet''"
    by (simp add: valueset_url_def)
  have ne: "net_events ?w = []" "net_events ?v = []" "net_calls ?w = 0" "net_calls ?v = 0"
    by (simp_all add: net_events_def net_calls_def store_world_def)
  have ha: "\<And>n u x. hapi ?w n u x = None"
    by (simp add: store_world_def accept_all_def)
  have hv: "\<And>n u x. hapi ?v n u x = (if n = 1 then Some (http_error 500) else None)"
    by (simp add: store_world_def reject_second_def)
  note t = upload_modes[where baseUrl = "''http://h''" and rs = ?rs]
  from t[where w = ?w and res = res and w' = w' and ?res2.0 = res2 and ?w2.0 = w2] p b
  have one: "res = None \<and> net_events w' = [NetPost ''http://h/ValueSet'' [page_of [''a''] None],
                            NetPost ''http://h/ValueSet'' [page_of [''b''] None],
                            NetPost ''http://h/ValueSet'' [page_of [''c''] None]]"
    and two: "res2 = None \<and> net_events w2 = [NetPost ''http://h'' ?rs]"
    by (simp_all add: url ne ha)
  from t[where w = ?v and res = res3 and w' = w3] c
  have "(res3 = None \<and> (\<forall>i < length ?rs. hapi ?v (net_calls ?v + i) ''http://h/ValueSet'' [?rs ! i] = None))
      \<or> (\<exists>j e. j < length ?rs \<and> res3 = Some e
            \<and> hapi ?v (net_calls ?v + j) ''http://h/ValueSet'' [?rs ! j] = Some e
            \<and> (\<forall>i < j. hapi ?v (net_calls ?v + i) ''http://h/ValueSet'' [?rs ! i] = None)
            \<and> net_events w3 = net_events ?v @ map (\<lambda>r. NetPost ''http://h/ValueSet'' [r]) (take (Suc j) ?rs))"
    unfolding url by blast
  then have three: "res3 = Some (http_error 500)
      \<and> net_events w3 = [NetPost ''http://h/ValueSet'' [page_of [''a''] None],
                          NetPost ''http://h/ValueSet'' [page_of [''b''] None]]"
  proof (elim disjE conjE exE)
    assume "\<forall>i < length ?rs. hapi ?v (net_calls ?v + i) ''http://h/ValueSet'' [?rs ! i] = None"
    then have "1 < length ?rs \<longrightarrow> hapi ?v (net_calls ?v + 1) ''http://h/ValueSet'' [?rs ! 1] = None"
      by (rule spec)
    then show ?thesis by (simp add: hv ne)
  next
    fix j e
    assume a: "j < length ?rs" "res3 = Some e"
      "hapi ?v (net_calls ?v + j) ''http://h/ValueSet'' [?rs ! j] = Some e"
      "net_events w3 = net_events ?v @ map (\<lambda>r. NetPost ''http://h/ValueSet'' [r]) (take (Suc j) ?rs)"
    from a(3) have "j = 1 \<and> e = http_error 500" by (simp add: hv ne split: if_splits)
    with a(2,4) show ?thesis by (simp add: ne)
  qed
  from one two three p b c show ?thesis by simp
qed

section \<open>Properties of the scheduler\<close>

lemma filter_update_length:
  "k < length ws \<Longrightarrow>
     length (filter P (ws[k := x])) + (if P (ws ! k) then 1 else 0)
       = length (filter P ws) + (if P x then 1 else 0)"
proof (induction ws arbitrary: k)
  case Nil
  then show ?case by simp
next
  case (Cons a ws)
  show ?case
  proof (cases k)
    case 0
    then show ?thesis by simp
  next
    case (Suc j)
    with Cons.prems have "j < length ws" by simp
    from Cons.IH[OF this] Suc show ?thesis by simp
  qed
qed

lemma in_flight_update:
  "k < length (workers s) \<Longrightarrow>
     length (filter is_busy ((workers s)[k := x])) + (if is_busy (workers s ! k) then 1 else 0)
       = in_flight s + (if is_busy x then 1 else 0)"
  unfolding in_flight_def by (rule filter_update_length)

lemma finish_as_claim:
  "runJob fuel opts (ids ! i) (env s) = Some (Inr r, w') \<Longrightarrow>
     finish fuel opts ids k i s = claim ids k (complete k i r w' s)"
  by (simp add: finish_def claim_def complete_def Let_def)

lemma sched_invD:
  assumes "sched_inv fuel opts ids s"
  shows "length (workers s) = min (concurrency_of opts) (length ids)"
    and "idx s \<le> length ids"
    and "started s = [0..<idx s]"
    and "running s = in_flight s"
    and "completed s + running s = idx s"
    and "\<forall>k < length (workers s). \<forall>i. workers s ! k = Busy i \<longrightarrow> i < idx s \<and> results s i = None"
    and "\<forall>k < length (workers s). \<forall>k' < length (workers s). \<forall>i.
           workers s ! k = Busy i \<and> workers s ! k' = Busy i \<longrightarrow> k = k'"
    and "\<forall>i < idx s. results s i \<noteq> None \<or> (\<exists>k < length (workers s). workers s ! k = Busy i)"
    and "\<forall>i. results s i \<noteq> None \<longrightarrow> i < idx s"
    and "(\<exists>k < length (workers s). workers s ! k = Gone) \<longrightarrow> idx s = length ids"
    and "\<forall>i r. results s i = Some r \<longrightarrow> (\<exists>w0 w1. runJob fuel opts (ids ! i) w0 = Some (Inr r, w1))"
  using assms unfolding sched_inv_def by blast+

lemma sched_invI:
  assumes "length (workers s) = min (concurrency_of opts) (length ids)"
    and "idx s \<le> length ids"
    and "started s = [0..<idx s]"
    and "running s = in_flight s"
    and "completed s + running s = idx s"
    and "\<forall>k < length (workers s). \<forall>i. workers s ! k = Busy i \<longrightarrow> i < idx s \<and> results s i = None"
    and "\<forall>k < length (workers s). \<forall>k' < length (workers s). \<forall>i.
           workers s ! k = Busy i \<and> workers s ! k' = Busy i \<longrightarrow> k = k'"
    and "\<forall>i < idx s. results s i \<noteq> None \<or> (\<exists>k < length (workers s). workers s ! k = Busy i)"
    and "\<forall>i. results s i \<noteq> None \<longrightarrow> i < idx s"
    and "(\<exists>k < length (workers s). workers s ! k = Gone) \<longrightarrow> idx s = length ids"
    and "\<forall>i r. results s i = Some r \<longrightarrow> (\<exists>w0 w1. runJob fuel opts (ids ! i) w0 = Some (Inr r, w1))"
  shows "sched_inv fuel opts ids s"
  unfolding sched_inv_def using assms by blast

lemma init_inv: "sched_inv fuel opts ids (init_sched opts ids w)"
  by (rule sched_invI) (auto simp: init_sched_def in_flight_def no_result_def)

lemma complete_inv:
  assumes inv: "sched_inv fuel opts ids s" and k: "k < length (workers s)"
    and busy: "workers s ! k = Busy i" and job: "runJob fuel opts (ids ! i) (env s) = Some (Inr r, w')"
  shows "sched_inv fuel opts ids (complete k i r w' s)"
proof -
  let ?s = "complete k i r w' s"
  have f: "idx ?s = idx s" "started ?s = started s" "workers ?s = (workers s)[k := Ready]"
    "results ?s = (results s)(i \<mapsto> r)" "completed ?s = completed s + 1" "running ?s = running s - 1"
    by (simp_all add: complete_def)
  note len = sched_invD(1)[OF inv] and idx = sched_invD(2)[OF inv] and st = sched_invD(3)[OF inv]
    and run = sched_invD(4)[OF inv] and cnt = sched_invD(5)[OF inv] and held = sched_invD(6)[OF inv]
    and uniq = sched_invD(7)[OF inv] and cover = sched_invD(8)[OF inv]
    and below = sched_invD(9)[OF inv] and gone = sched_invD(10)[OF inv]
    and prov = sched_invD(11)[OF inv]
  from held k busy have i: "i < idx s" "results s i = None" by auto
  from in_flight_update[OF k, of Ready] busy have fl: "in_flight ?s + 1 = in_flight s"
    by (simp add: in_flight_def f)
  have 1: "length (workers ?s) = min (concurrency_of opts) (length ids)" using len by (simp add: f)
  have 2: "idx ?s \<le> length ids" using idx by (simp add: f)
  have 3: "started ?s = [0..<idx ?s]" using st by (simp add: f)
  have 4: "running ?s = in_flight ?s" using run fl by (simp add: f)
  have 5: "completed ?s + running ?s = idx ?s" using cnt run fl by (simp add: f)
  have 6: "\<forall>k' < length (workers ?s). \<forall>j. workers ?s ! k' = Busy j \<longrightarrow> j < idx ?s \<and> results ?s j = None"
  proof (intro allI impI)
    fix k' j assume a: "k' < length (workers ?s)" "workers ?s ! k' = Busy j"
    then have ne: "k' \<noteq> k" using k by (auto simp: f)
    with a have b: "k' < length (workers s)" "workers s ! k' = Busy j" by (simp_all add: f)
    with uniq k busy ne have "j \<noteq> i" by blast
    with held b show "j < idx ?s \<and> results ?s j = None" by (simp add: f)
  qed
  have 7: "\<forall>k1 < length (workers ?s). \<forall>k2 < length (workers ?s). \<forall>j.
           workers ?s ! k1 = Busy j \<and> workers ?s ! k2 = Busy j \<longrightarrow> k1 = k2"
  proof (intro allI impI)
    fix k1 k2 j assume a: "k1 < length (workers ?s)" "k2 < length (workers ?s)"
      "workers ?s ! k1 = Busy j \<and> workers ?s ! k2 = Busy j"
    then have "k1 \<noteq> k" "k2 \<noteq> k" using k by (auto simp: f)
    with a uniq show "k1 = k2" by (simp add: f)
  qed
  have 8: "\<forall>j < idx ?s. results ?s j \<noteq> None \<or> (\<exists>k' < length (workers ?s). workers ?s ! k' = Busy j)"
  proof (intro allI impI)
    fix j assume j: "j < idx ?s"
    show "results ?s j \<noteq> None \<or> (\<exists>k' < length (workers ?s). workers ?s ! k' = Busy j)"
    proof (cases "j = i")
      case True
      then show ?thesis by (simp add: f)
    next
      case False
      from cover j have "results s j \<noteq> None \<or> (\<exists>k' < length (workers s). workers s ! k' = Busy j)"
        by (simp add: f)
      then show ?thesis
      proof
        assume "results s j \<noteq> None"
        with False show ?thesis by (simp add: f)
      next
        assume "\<exists>k' < length (workers s). workers s ! k' = Busy j"
        then obtain k' where k': "k' < length (workers s)" "workers s ! k' = Busy j" by blast
        with busy False have "k' \<noteq> k" by auto
        with k' have "k' < length (workers ?s) \<and> workers ?s ! k' = Busy j" by (simp add: f)
        then show ?thesis by blast
      qed
    qed
  qed
  have 9: "\<forall>j. results ?s j \<noteq> None \<longrightarrow> j < idx ?s" using below i by (simp add: f)
  have 10: "(\<exists>k' < length (workers ?s). workers ?s ! k' = Gone) \<longrightarrow> idx ?s = length ids"
  proof
    assume "\<exists>k' < length (workers ?s). workers ?s ! k' = Gone"
    then obtain k' where k': "k' < length (workers ?s)" "workers ?s ! k' = Gone" by blast
    then have "k' \<noteq> k" using k by (auto simp: f)
    with k' gone show "idx ?s = length ids" by (auto simp: f)
  qed
  have 11: "\<forall>j r'. results ?s j = Some r' \<longrightarrow> (\<exists>w0 w1. runJob fuel opts (ids ! j) w0 = Some (Inr r', w1))"
    using prov job by (auto simp: f)
  show ?thesis
    by (rule sched_invI[OF 1 2 3 4 5 6 7 8 9 10 11])
qed

lemma claim_inv:
  assumes inv: "sched_inv fuel opts ids s" and k: "k < length (workers s)"
    and ready: "workers s ! k = Ready"
  shows "sched_inv fuel opts ids (claim ids k s)"
proof (cases "idx s \<ge> length ids")
  case True
  let ?s = "claim ids k s"
  have f: "idx ?s = idx s" "started ?s = started s" "workers ?s = (workers s)[k := Gone]"
    "results ?s = results s" "completed ?s = completed s" "running ?s = running s"
    using True by (simp_all add: claim_def)
  note len = sched_invD(1)[OF inv] and idx = sched_invD(2)[OF inv] and st = sched_invD(3)[OF inv]
    and run = sched_invD(4)[OF inv] and cnt = sched_invD(5)[OF inv] and held = sched_invD(6)[OF inv]
    and uniq = sched_invD(7)[OF inv] and cover = sched_invD(8)[OF inv]
    and below = sched_invD(9)[OF inv] and gone = sched_invD(10)[OF inv]
    and prov = sched_invD(11)[OF inv]
  from in_flight_update[OF k, of Gone] ready have fl: "in_flight ?s = in_flight s"
    by (simp add: in_flight_def f)
  have 6: "\<forall>k' < length (workers ?s). \<forall>j. workers ?s ! k' = Busy j \<longrightarrow> j < idx ?s \<and> results ?s j = None"
  proof (intro allI impI)
    fix k' j assume a: "k' < length (workers ?s)" "workers ?s ! k' = Busy j"
    then have ne: "k' \<noteq> k" using k by (auto simp: f)
    with a held show "j < idx ?s \<and> results ?s j = None" by (simp add: f)
  qed
  have 7: "\<forall>k1 < length (workers ?s). \<forall>k2 < length (workers ?s). \<forall>j.
           workers ?s ! k1 = Busy j \<and> workers ?s ! k2 = Busy j \<longrightarrow> k1 = k2"
  proof (intro allI impI)
    fix k1 k2 j assume a: "k1 < length (workers ?s)" "k2 < length (workers ?s)"
      "workers ?s ! k1 = Busy j \<and> workers ?s ! k2 = Busy j"
    then have "k1 \<noteq> k" "k2 \<noteq> k" using k by (auto simp: f)
    with a uniq show "k1 = k2" by (simp add: f)
  qed
  have 8: "\<forall>j < idx ?s. results ?s j \<noteq> None \<or> (\<exists>k' < length (workers ?s). workers ?s ! k' = Busy j)"
  proof (intro allI impI)
    fix j assume j: "j < idx ?s"
    with cover have "results s j \<noteq> None \<or> (\<exists>k' < length (workers s). workers s ! k' = Busy j)"
      by (simp add: f)
    then show "results ?s j \<noteq> None \<or> (\<exists>k' < length (workers ?s). workers ?s ! k' = Busy j)"
    proof
      assume "results s j \<noteq> None"
      then show ?thesis by (simp add: f)
    next
      assume "\<exists>k' < length (workers s). workers s ! k' = Busy j"
      then obtain k' where k': "k' < length (workers s)" "workers s ! k' = Busy j" by blast
      with ready have "k' \<noteq> k" by auto
      with k' have "k' < length (workers ?s) \<and> workers ?s ! k' = Busy j" by (simp add: f)
      then show ?thesis by blast
    qed
  qed
  have 10: "(\<exists>k' < length (workers ?s). workers ?s ! k' = Gone) \<longrightarrow> idx ?s = length ids"
    using True idx by (simp add: f)
  have 1: "length (workers ?s) = min (concurrency_of opts) (length ids)" using len by (simp add: f)
  have 2: "idx ?s \<le> length ids" using idx by (simp add: f)
  have 3: "started ?s = [0..<idx ?s]" using st by (simp add: f)
  have 4: "running ?s = in_flight ?s" using run fl by (simp add: f)
  have 5: "completed ?s + running ?s = idx ?s" using cnt by (simp add: f)
  have 9: "\<forall>j. results ?s j \<noteq> None \<longrightarrow> j < idx ?s" using below by (simp add: f)
  have 11: "\<forall>j r'. results ?s j = Some r' \<longrightarrow> (\<exists>w0 w1. runJob fuel opts (ids ! j) w0 = Some (Inr r', w1))"
    using prov by (simp add: f)
  show ?thesis
    by (rule sched_invI[OF 1 2 3 4 5 6 7 8 9 10 11])
next
  case False
  let ?s = "claim ids k s"
  have f: "idx ?s = idx s + 1" "started ?s = started s @ [idx s]"
    "workers ?s = (workers s)[k := Busy (idx s)]"
    "results ?s = results s" "completed ?s = completed s" "running ?s = running s + 1"
    using False by (simp_all add: claim_def)
  note len = sched_invD(1)[OF inv] and idx = sched_invD(2)[OF inv] and st = sched_invD(3)[OF inv]
    and run = sched_invD(4)[OF inv] and cnt = sched_invD(5)[OF inv] and held = sched_invD(6)[OF inv]
    and uniq = sched_invD(7)[OF inv] and cover = sched_invD(8)[OF inv]
    and below = sched_invD(9)[OF inv] and gone = sched_invD(10)[OF inv]
    and prov = sched_invD(11)[OF inv]
  from in_flight_update[OF k, of "Busy (idx s)"] ready have fl: "in_flight ?s = in_flight s + 1"
    by (simp add: in_flight_def f)
  have fresh: "results s (idx s) = None" using below by (cases "results s (idx s)") auto
  have 2: "idx ?s \<le> length ids" using False by (simp add: f)
  have 3: "started ?s = [0..<idx ?s]" using st by (simp add: f)
  have 6: "\<forall>k' < length (workers ?s). \<forall>j. workers ?s ! k' = Busy j \<longrightarrow> j < idx ?s \<and> results ?s j = None"
  proof (intro allI impI)
    fix k' j assume a: "k' < length (workers ?s)" "workers ?s ! k' = Busy j"
    show "j < idx ?s \<and> results ?s j = None"
    proof (cases "k' = k")
      case True
      with a k have "j = idx s" by (simp add: f)
      with fresh show ?thesis by (simp add: f)
    next
      case ne: False
      with a held have "j < idx s \<and> results s j = None" by (simp add: f)
      then show ?thesis by (simp add: f)
    qed
  qed
  have 7: "\<forall>k1 < length (workers ?s). \<forall>k2 < length (workers ?s). \<forall>j.
           workers ?s ! k1 = Busy j \<and> workers ?s ! k2 = Busy j \<longrightarrow> k1 = k2"
  proof (intro allI impI)
    fix k1 k2 j assume a: "k1 < length (workers ?s)" "k2 < length (workers ?s)"
      "workers ?s ! k1 = Busy j \<and> workers ?s ! k2 = Busy j"
    have old: "\<And>k'. k' < length (workers s) \<Longrightarrow> k' \<noteq> k \<Longrightarrow> workers s ! k' \<noteq> Busy (idx s)"
      using held by fastforce
    show "k1 = k2"
    proof (cases "k1 = k")
      case True
      with a k have j: "j = idx s" by (simp add: f)
      show ?thesis
      proof (rule ccontr)
        assume "k1 \<noteq> k2"
        with True a j have "k2 < length (workers s)" "k2 \<noteq> k" "workers s ! k2 = Busy (idx s)"
          by (simp_all add: f)
        with old show False by blast
      qed
    next
      case ne1: False
      show ?thesis
      proof (cases "k2 = k")
        case True
        with a k have j: "j = idx s" by (simp add: f)
        with ne1 a have "k1 < length (workers s)" "k1 \<noteq> k" "workers s ! k1 = Busy (idx s)"
          by (simp_all add: f)
        with old show ?thesis by blast
      next
        case False
        with ne1 a uniq show ?thesis by (simp add: f)
      qed
    qed
  qed
  have 8: "\<forall>j < idx ?s. results ?s j \<noteq> None \<or> (\<exists>k' < length (workers ?s). workers ?s ! k' = Busy j)"
  proof (intro allI impI)
    fix j assume j: "j < idx ?s"
    show "results ?s j \<noteq> None \<or> (\<exists>k' < length (workers ?s). workers ?s ! k' = Busy j)"
    proof (cases "j = idx s")
      case True
      with k have "k < length (workers ?s) \<and> workers ?s ! k = Busy j" by (simp add: f)
      then show ?thesis by blast
    next
      case False
      with j have "j < idx s" by (simp add: f)
      with cover have "results s j \<noteq> None \<or> (\<exists>k' < length (workers s). workers s ! k' = Busy j)"
        by simp
      then show ?thesis
      proof
        assume "results s j \<noteq> None"
        then show ?thesis by (simp add: f)
      next
        assume "\<exists>k' < length (workers s). workers s ! k' = Busy j"
        then obtain k' where k': "k' < length (workers s)" "workers s ! k' = Busy j" by blast
        with ready have "k' \<noteq> k" by auto
        with k' have "k' < length (workers ?s) \<and> workers ?s ! k' = Busy j" by (simp add: f)
        then show ?thesis by blast
      qed
    qed
  qed
  have 9: "\<forall>j. results ?s j \<noteq> None \<longrightarrow> j < idx ?s" using below by (auto simp: f less_Suc_eq)
  have 10: "(\<exists>k' < length (workers ?s). workers ?s ! k' = Gone) \<longrightarrow> idx ?s = length ids"
  proof
    assume "\<exists>k' < length (workers ?s). workers ?s ! k' = Gone"
    then obtain k' where k': "k' < length (workers ?s)" "workers ?s ! k' = Gone" by blast
    then have "k' \<noteq> k" using k by (auto simp: f)
    with k' gone have "idx s = length ids" by (auto simp: f)
    with False show "idx ?s = length ids" by simp
  qed
  have 1: "length (workers ?s) = min (concurrency_of opts) (length ids)" using len by (simp add: f)
  have 4: "running ?s = in_flight ?s" using run fl by (simp add: f)
  have 5: "completed ?s + running ?s = idx ?s" using cnt by (simp add: f)
  have 11: "\<forall>j r'. results ?s j = Some r' \<longrightarrow> (\<exists>w0 w1. runJob fuel opts (ids ! j) w0 = Some (Inr r', w1))"
    using prov by (simp add: f)
  show ?thesis
    by (rule sched_invI[OF 1 2 3 4 5 6 7 8 9 10 11])
qed

lemma sched_inv_env [simp]:
  "sched_inv fuel opts ids (s\<lparr>env := w, crashed := c\<rparr>) = sched_inv fuel opts ids s"
  by (simp add: sched_inv_def in_flight_def)

lemma step_inv:
  assumes "sched_inv fuel opts ids s"
  shows "sched_inv fuel opts ids (step fuel opts ids k s)"
proof (cases "crashed s = None \<and> k < length (workers s)")
  case False
  with assms show ?thesis by (auto simp: step_def)
next
  case True
  then have k: "k < length (workers s)" by simp
  show ?thesis
  proof (cases "workers s ! k")
    case Ready
    with True claim_inv[OF assms k Ready] show ?thesis by (simp add: step_def)
  next
    case Gone
    with True assms show ?thesis by (simp add: step_def)
  next
    case (Busy i)
    show ?thesis
    proof (cases "runJob fuel opts (ids ! i) (env s)")
      case None
      with True Busy assms show ?thesis by (simp add: step_def finish_def)
    next
      case (Some rw)
      obtain x w' where rw: "rw = (x, w')" by (cases rw)
      show ?thesis
      proof (cases x)
        case (Inl thrown)
        with Some rw True Busy assms show ?thesis by (simp add: step_def finish_def)
      next
        case (Inr r)
        from complete_inv[OF assms k Busy Some[unfolded rw Inr]]
        have c: "sched_inv fuel opts ids (complete k i r w' s)" .
        have "k < length (workers (complete k i r w' s))" "workers (complete k i r w' s) ! k = Ready"
          using k by (simp_all add: complete_def)
        from claim_inv[OF c this] finish_as_claim[OF Some[unfolded rw Inr]] True Busy
        show ?thesis by (simp add: step_def)
      qed
    qed
  qed
qed

lemma exec_inv:
  "sched_inv fuel opts ids s \<Longrightarrow> sched_inv fuel opts ids (exec fuel opts ids sch s)"
  by (induction sch arbitrary: s) (simp_all add: step_inv)

lemma exec_append:
  "exec fuel opts ids (sch @ sch') s = exec fuel opts ids sch' (exec fuel opts ids sch s)"
  by (induction sch arbitrary: s) simp_all

lemma all_gone_iff: "all_gone s \<longleftrightarrow> (\<forall>k < length (workers s). workers s ! k = Gone)"
  by (simp add: all_gone_def list_all_length)

lemma all_gone_in_flight: "all_gone s \<Longrightarrow> in_flight s = 0"
  by (auto simp: all_gone_def in_flight_def list_all_iff filter_empty_conv)

lemma concurrency_of_pos: "1 \<le> concurrency_of opts"
  by (simp add: concurrency_of_def)


lemma final_state:
  assumes inv: "sched_inv fuel opts ids s" and gone: "all_gone s"
  shows "idx s = length ids" and "started s = [0..<length ids]"
    and "dom (results s) = {0..<length ids}" and "running s = 0" and "completed s = length ids"
proof -
  note d = sched_invD[OF inv]
  show i: "idx s = length ids"
  proof (cases "workers s")
    case Nil
    with d(1) concurrency_of_pos[of opts] have "length ids = 0" by (simp add: min_def split: if_splits)
    with d(2) show ?thesis by simp
  next
    case (Cons x xs)
    with gone have "0 < length (workers s) \<and> workers s ! 0 = Gone" by (simp add: all_gone_def)
    with d(10) show ?thesis by blast
  qed
  with d(3) show "started s = [0..<length ids]" by simp
  have nobusy: "\<And>k j. k < length (workers s) \<Longrightarrow> workers s ! k \<noteq> Busy j"
    using gone by (simp add: all_gone_iff)
  have "\<And>j. j < idx s \<Longrightarrow> results s j \<noteq> None" using d(8) nobusy by blast
  with d(9) i show "dom (results s) = {0..<length ids}" by (auto simp: dom_def)
  from d(4) all_gone_in_flight[OF gone] show r: "running s = 0" by simp
  with d(5) i show "completed s = length ids" by simp
qed

lemma claim_crashed [simp]: "crashed (claim ids k s) = crashed s"
  by (simp add: claim_def)

lemma step_crashed:
  assumes "crashed (step fuel opts ids k s) = Some e"
  shows "crashed s = Some e
     \<or> (\<exists>i w'. k < length (workers s) \<and> workers s ! k = Busy i
           \<and> runJob fuel opts (ids ! i) (env s) = Some (Inl e, w'))"
proof (cases "crashed s = None \<and> k < length (workers s)")
  case False
  with assms show ?thesis by (auto simp: step_def)
next
  case True
  show ?thesis
  proof (cases "workers s ! k")
    case Ready
    with True assms show ?thesis by (simp add: step_def)
  next
    case Gone
    with True assms show ?thesis by (simp add: step_def)
  next
    case (Busy i)
    show ?thesis
    proof (cases "runJob fuel opts (ids ! i) (env s)")
      case None
      with True Busy assms show ?thesis by (simp add: step_def finish_def)
    next
      case (Some rw)
      obtain x w' where rw: "rw = (x, w')" by (cases rw)
      show ?thesis
      proof (cases x)
        case (Inl thrown)
        with Some rw True Busy assms have "thrown = e" by (simp add: step_def finish_def)
        with Inl Some rw True Busy show ?thesis by simp
      next
        case (Inr r)
        with Some rw True Busy assms show ?thesis
          by (simp add: step_def finish_def Let_def split: if_splits)
      qed
    qed
  qed
qed

lemma exec_crashed:
  assumes inv: "sched_inv fuel opts ids s"
    and c: "crashed (exec fuel opts ids sch s) = Some e"
  shows "crashed s = Some e
     \<or> (\<exists>i w0 w1. i < length ids \<and> runJob fuel opts (ids ! i) w0 = Some (Inl e, w1))"
  using inv c
proof (induction sch arbitrary: s)
  case Nil
  then show ?case by simp
next
  case (Cons k sch)
  from Cons.prems(2) have "crashed (exec fuel opts ids sch (step fuel opts ids k s)) = Some e"
    by simp
  from Cons.IH[OF step_inv[OF Cons.prems(1)] this] show ?case
  proof
    assume "crashed (step fuel opts ids k s) = Some e"
    from step_crashed[OF this] show ?thesis
    proof
      assume "crashed s = Some e"
      then show ?thesis by simp
    next
      assume "\<exists>i w'. k < length (workers s) \<and> workers s ! k = Busy i
           \<and> runJob fuel opts (ids ! i) (env s) = Some (Inl e, w')"
      then obtain i w' where k: "k < length (workers s)" "workers s ! k = Busy i"
        and j: "runJob fuel opts (ids ! i) (env s) = Some (Inl e, w')" by blast
      from sched_invD(6)[OF Cons.prems(1)] k have "i < idx s" by blast
      with sched_invD(2)[OF Cons.prems(1)] have "i < length ids" by simp
      with j show ?thesis by blast
    qed
  next
    assume "\<exists>i w0 w1. i < length ids \<and> runJob fuel opts (ids ! i) w0 = Some (Inl e, w1)"
    then show ?thesis by simp
  qed
qed

lemma step_after_crash: "crashed s \<noteq> None \<Longrightarrow> step fuel opts ids k s = s"
  by (auto simp: step_def)

lemma exec_after_crash: "crashed s \<noteq> None \<Longrightarrow> exec fuel opts ids sch s = s"
  by (induction sch) (simp_all add: step_after_crash)

lemma work_left_step:
  assumes inv: "sched_inv fuel opts ids s" and k: "k < length (workers s)"
    and live: "workers s ! k \<noteq> Gone" and ok: "crashed s = None"
    and jt: "\<forall>i < length ids. \<forall>w. runJob fuel opts (ids ! i) w \<noteq> None"
  shows "work_left ids (step fuel opts ids k s) < work_left ids s
     \<or> crashed (step fuel opts ids k s) \<noteq> None"
proof -
  note d = sched_invD[OF inv]
  have claim_less: "work_left ids (claim ids k s') < work_left ids s'"
    if "k < length (workers s')" "workers s' ! k \<noteq> Gone" for s'
  proof (cases "idx s' \<ge> length ids")
    case True
    from filter_update_length[OF that(1), of "\<lambda>x. x \<noteq> Gone" Gone] that(2)
    have "length (filter (\<lambda>x. x \<noteq> Gone) ((workers s')[k := Gone])) + 1
            = length (filter (\<lambda>x. x \<noteq> Gone) (workers s'))" by simp
    with True show ?thesis by (simp add: work_left_def claim_def)
  next
    case False
    from filter_update_length[OF that(1), of "\<lambda>x. x \<noteq> Gone" "Busy (idx s')"] that(2)
    have "length (filter (\<lambda>x. x \<noteq> Gone) ((workers s')[k := Busy (idx s')]))
            = length (filter (\<lambda>x. x \<noteq> Gone) (workers s'))" by simp
    with False show ?thesis by (simp add: work_left_def claim_def)
  qed
  show ?thesis
  proof (cases "workers s ! k")
    case Ready
    with k ok claim_less[of s] show ?thesis by (simp add: step_def)
  next
    case Gone
    with live show ?thesis by simp
  next
    case (Busy i)
    with d(6) k have "i < idx s" by blast
    with d(2) jt obtain x w' where job: "runJob fuel opts (ids ! i) (env s) = Some (x, w')"
      by (metis less_le_trans not_None_eq surj_pair)
    show ?thesis
    proof (cases x)
      case (Inl thrown)
      with job k ok Busy have "crashed (step fuel opts ids k s) = Some thrown"
        by (simp add: step_def finish_def)
      then show ?thesis by simp
    next
      case (Inr r)
      let ?c = "complete k i r w' s"
      from filter_update_length[OF k, of "\<lambda>x. x \<noteq> Gone" Ready] Busy
      have "work_left ids ?c = work_left ids s" by (simp add: work_left_def complete_def)
      moreover have "k < length (workers ?c)" "workers ?c ! k \<noteq> Gone"
        using k by (simp_all add: complete_def)
      from claim_less[OF this] have "work_left ids (claim ids k ?c) < work_left ids ?c" .
      ultimately show ?thesis
        using k ok Busy finish_as_claim[OF job[unfolded Inr]] by (simp add: step_def)
    qed
  qed
qed

lemma run_to_completion:
  assumes jt: "\<forall>i < length ids. \<forall>w. runJob fuel opts (ids ! i) w \<noteq> None"
  shows "sched_inv fuel opts ids s \<Longrightarrow>
     \<exists>sch. all_gone (exec fuel opts ids sch s) \<or> crashed (exec fuel opts ids sch s) \<noteq> None"
proof (induction "work_left ids s" arbitrary: s rule: less_induct)
  case less
  show ?case
  proof (cases "all_gone s \<or> crashed s \<noteq> None")
    case True
    then have "all_gone (exec fuel opts ids [] s) \<or> crashed (exec fuel opts ids [] s) \<noteq> None"
      by simp
    then show ?thesis by blast
  next
    case False
    then obtain k where k: "k < length (workers s)" "workers s ! k \<noteq> Gone"
      by (auto simp: all_gone_iff)
    from False have ok: "crashed s = None" by simp
    let ?s = "step fuel opts ids k s"
    from work_left_step[OF less.prems k ok jt] show ?thesis
    proof
      assume "work_left ids ?s < work_left ids s"
      from less.hyps[OF this step_inv[OF less.prems]]
      obtain sch where "all_gone (exec fuel opts ids sch ?s) \<or> crashed (exec fuel opts ids sch ?s) \<noteq> None"
        by blast
      then have "all_gone (exec fuel opts ids (k # sch) s) \<or> crashed (exec fuel opts ids (k # sch) s) \<noteq> None"
        by simp
      then show ?thesis by blast
    next
      assume "crashed ?s \<noteq> None"
      then have "all_gone (exec fuel opts ids [k] s) \<or> crashed (exec fuel opts ids [k] s) \<noteq> None"
        by simp
      then show ?thesis by blast
    qed
  qed
qed

lemma init_not_crashed [simp]: "crashed (init_sched opts ids w) = None"
  by (simp add: init_sched_def)


section \<open>Properties of a dry run\<close>
lemma claim_env [simp]: "env (claim ids k s) = env s" "results (claim ids k s) = results s"
  by (simp_all add: claim_def)

lemma adds_refl [simp]: "adds w [] w"
  by (simp add: adds_def)

lemma written_append [simp]: "written (xs @ ys) = written xs @ written ys"
  by (induction xs rule: written.induct) simp_all



lemma adds_emit_console [simp]:
  "adds w [ConsoleError l] (emit (ConsoleError l) w)" "adds w [ConsoleLog l] (emit (ConsoleLog l) w)"
  by (simp_all add: adds_def emit_def)


lemma adds_write [simp]:
  "adds w [FileWrite f c] (emit (FileWrite f c) (w\<lparr>files := (files w)(f \<mapsto> c)\<rparr>))"
  by (simp add: adds_def emit_def)

lemma stub_derive [simp]:
  "deriveVsacVersion (stub_definition opts oid) = stub_version opts"
  "deriveVsacVersion (stub_page opts oid) = stub_version opts"
  "stub_version opts \<noteq> []"
  by (auto simp: deriveVsacVersion_def stub_definition_def stub_page_def stub_version_def or_else_def
      split: option.splits)

lemma or_else_Some [simp]: "x \<noteq> [] \<Longrightarrow> or_else (Some x) d = x"
  by (simp add: or_else_def)

lemma merge_stub [simp]: "mergeExpansionPages [stub_page opts oid] = Inr (stub_page opts oid)"
  by (simp add: mergeExpansionPages_def stub_page_def page_items_def)












section \<open>A dry run under every schedule\<close>






lemma emit_all_fields [simp]:
  "trace (emit_all es w) = trace w @ es" "files (emit_all es w) = files w"
  by (simp_all add: emit_all_def)





lemma action_crashed:
  "truthy (o_umlsKey opts) \<or> truthy env_key \<Longrightarrow>
   crashed (exec fuel opts ids sch (init_sched opts ids w)) = Some thrown \<Longrightarrow>
     valueset_action fuel opts env_key ids sch w
       = Some (1, (exec fuel opts ids sch (init_sched opts ids w))
                    \<lparr>env := emit (ConsoleError (''Fatal error: '' @ message thrown))
                              (env (exec fuel opts ids sch (init_sched opts ids w)))\<rparr>)"
  by (auto simp: valueset_action_def Let_def)

lemma action_with_key:
  assumes key: "truthy (o_umlsKey opts) \<or> truthy env_key"
    and ok: "crashed (exec fuel opts ids sch (init_sched opts ids w)) = None"
    and act: "valueset_action fuel opts env_key ids sch w = Some (code, s)"
  shows "\<exists>failure w1.
      all_gone (exec fuel opts ids sch (init_sched opts ids w))
      \<and> (failure, w1) =
           (if truthy (o_post opts)
            then postValueSetsToHapi (or_else (o_post opts) [])
                   (toUpload opts (results_list (exec fuel opts ids sch (init_sched opts ids w)) (length ids)))
                   (o_bundle opts) (o_dryRun opts) (env (exec fuel opts ids sch (init_sched opts ids w)))
            else (None, env (exec fuel opts ids sch (init_sched opts ids w))))
      \<and> (case failure of
            Some e \<Rightarrow> code = 1 \<and> s = (exec fuel opts ids sch (init_sched opts ids w))
                        \<lparr>env := emit (ConsoleError (''Fatal error: '' @ message e)) w1\<rparr>
          | None \<Rightarrow> code = 0 \<and> s = (exec fuel opts ids sch (init_sched opts ids w))
                        \<lparr>env := emit_all (summary (length ids)
                                   (results_list (exec fuel opts ids sch (init_sched opts ids w)) (length ids))) w1\<rparr>)"
proof -
  let ?s = "exec fuel opts ids sch (init_sched opts ids w)"
  let ?up = "if truthy (o_post opts)
            then postValueSetsToHapi (or_else (o_post opts) [])
                   (toUpload opts (results_list ?s (length ids))) (o_bundle opts) (o_dryRun opts) (env ?s)
            else (None, env ?s)"
  obtain failure w1 where up: "?up = (failure, w1)" by (cases ?up)
  from key ok act have g: "all_gone ?s"
    by (auto simp: valueset_action_def Let_def split: if_splits)
  from key ok act g up
  have "case failure of
            Some e \<Rightarrow> code = 1 \<and> s = ?s\<lparr>env := emit (ConsoleError (''Fatal error: '' @ message e)) w1\<rparr>
          | None \<Rightarrow> code = 0 \<and> s = ?s\<lparr>env := emit_all (summary (length ids) (results_list ?s (length ids))) w1\<rparr>"
    by (auto simp: valueset_action_def Let_def split: if_splits option.splits)
  with g up show ?thesis by (metis (no_types, lifting))
qed

lemma action_complete:
  "all_gone (exec fuel opts ids sch (init_sched opts ids w)) \<Longrightarrow>
     valueset_action fuel opts env_key ids sch w \<noteq> None"
  by (auto simp: valueset_action_def Let_def split: prod.splits option.splits)

lemma concat_singletons:
  "(\<And>i. i \<in> set xs \<Longrightarrow> f i = [g i]) \<Longrightarrow> concat (map f xs) = map g xs"
  by (induction xs) simp_all

lemma results_list_full:
  assumes "dom (results s) = {0..<n}"
  shows "results_list s n = map (\<lambda>i. the (results s i)) [0..<n]"
  unfolding results_list_def
proof (rule concat_singletons)
  fix i assume "i \<in> set [0..<n]"
  with assms have "i \<in> dom (results s)" by simp
  then show "(case results s i of None \<Rightarrow> [] | Some r \<Rightarrow> [r]) = [the (results s i)]"
    by auto
qed



section \<open>Evaluation of concrete runs\<close>

lemma path_join_out [simp]:
  "CHR ''/'' \<notin> set name \<Longrightarrow> name \<noteq> [] \<Longrightarrow> name \<noteq> ''.'' \<Longrightarrow> name \<noteq> ''..''
     \<Longrightarrow> path_join ''out'' name = ''out/'' @ name"
  using path_join_plain[of "''out''" name] by simp

lemma path_join_c [simp]:
  "CHR ''/'' \<notin> set name \<Longrightarrow> name \<noteq> [] \<Longrightarrow> name \<noteq> ''.'' \<Longrightarrow> name \<noteq> ''..''
     \<Longrightarrow> path_join ''c'' name = ''c/'' @ name"
  using path_join_plain[of "''c''" name] by simp

lemmas job_eval =
  exec.simps step_def claim_def finish_def init_sched_def concurrency_of_def runJob_def job_body_def
  definition_stage_def expansion_stage_def normalizeVsacId_def match_here_def is_digit_def
  is_digit_or_dot_def stub_page_def stub_definition_def mergeExpansionPages_def page_items_def
  deriveVsacVersion_def or_else_def writeValueSetFiles_def output_file_def
  writeFileSync_def emit_def error_result_def error_text_def operationOutcomeToMessage_def
  Let_def no_result_def
  fresh_world_def gateway_down_def odd_gateway_def malformed_404_def one_page_world_def never_def no_file_def always_def
  http_error_def dry_opts_def real_opts_def three_ids_def all_gone_def in_flight_def

lemmas action_eval =
  outcome_def valueset_action_def truthy_def results_list_def toUpload_def summary_def
  postValueSetsToHapi_def emit_all_def digit_char_def

lemmas run_eval =
  job_eval fetch_opts_of_def fetchValueSetExpansion_def fetch_loop_numeral fetch_page_def
  cache_hit_def cacheFile_def truthy_def expand_url_def expand_params_def encodeURIComponent_def
  unreserved_def digit_char_def try_get_def http_get_def net_calls_def retryable_def stop_after_def
  n_contains_def page_total_def page_of_def results_list_def summary_def

section \<open>The dry run\<close>




section \<open>Failure isolation\<close>

text \<open>
  When the \<open>catch\<close> block of a job prints its line, the failure is recorded and the
  run goes on to the summary and code 0; it throws exactly for a response body whose
  \<open>issue\<close> member is not an array or holds a \<open>null\<close>.
\<close>

lemma error_text_throws:
  "(\<exists>thrown. error_text e = Inl thrown) \<longleftrightarrow>
     (\<exists>r. response e = Some r
          \<and> (data r = Some NotAList \<or> (\<exists>xs. data r = Some (IssueList xs) \<and> NullIssue \<in> set xs)))"
  by (auto simp: error_text_def operationOutcomeToMessage_def split: option.splits issues.splits)

lemma failure_recorded:
  assumes "job_body fuel opts id' w = Some (Inl e, w1)" and "error_text e = Inr txt"
  shows "runJob fuel opts id' w
     = Some (Inr (error_result id' e), emit (ConsoleError (''['' @ id' @ ''] Error: '' @ txt)) w1)"
  using assms by (simp add: runJob_def)

lemma failure_escapes:
  assumes "job_body fuel opts id' w = Some (Inl e, w1)" and "error_text e = Inl thrown"
  shows "runJob fuel opts id' w = Some (Inl thrown, w1)"
  using assms by (simp add: runJob_def)

lemma recorded_failures_do_not_stop_the_run:
  assumes key: "truthy (o_umlsKey opts) \<or> truthy env_key" and nopost: "\<not> truthy (o_post opts)"
    and rec: "\<forall>i < length ids. \<forall>w'. \<exists>r w1. runJob fuel opts (ids ! i) w' = Some (Inr r, w1)"
  shows "\<exists>sch' s. valueset_action fuel opts env_key ids (sch @ sch') w = Some (0, s)
           \<and> dom (results s) = {0..<length ids}
           \<and> trace (env s)
               = trace (env (exec fuel opts ids (sch @ sch') (init_sched opts ids w)))
                 @ summary (length ids) (results_list s (length ids))"
proof -
  let ?s = "exec fuel opts ids sch (init_sched opts ids w)"
  have inv: "sched_inv fuel opts ids ?s" by (rule exec_inv[OF init_inv])
  from rec have "\<forall>i < length ids. \<forall>w'. runJob fuel opts (ids ! i) w' \<noteq> None" by fastforce
  from run_to_completion[OF this inv] obtain sch' where
    e: "all_gone (exec fuel opts ids sch' ?s) \<or> crashed (exec fuel opts ids sch' ?s) \<noteq> None"
    by blast
  let ?x = "exec fuel opts ids (sch @ sch') (init_sched opts ids w)"
  have x: "?x = exec fuel opts ids sch' ?s" by (simp add: exec_append)
  have ok: "crashed ?x = None"
  proof (rule ccontr)
    assume "crashed ?x \<noteq> None"
    then obtain t where "crashed ?x = Some t" by blast
    from exec_crashed[OF init_inv this] obtain i w0 w1 where i: "i < length ids"
      and "runJob fuel opts (ids ! i) w0 = Some (Inl t, w1)" by auto
    moreover from rec i obtain r w2 where "runJob fuel opts (ids ! i) w0 = Some (Inr r, w2)" by blast
    ultimately show False by simp
  qed
  with e x have g: "all_gone ?x" by simp
  have invx: "sched_inv fuel opts ids ?x" by (rule exec_inv[OF init_inv])
  from action_complete[OF g, of env_key] obtain code s
    where act: "valueset_action fuel opts env_key ids (sch @ sch') w = Some (code, s)" by auto
  from action_with_key[OF key ok act] nopost
  have c: "code = 0" and s: "s = ?x\<lparr>env := emit_all (summary (length ids) (results_list ?x (length ids))) (env ?x)\<rparr>"
    by (auto split: option.splits)
  from s have rs: "results s = results ?x" by simp
  then have rl: "results_list s (length ids) = results_list ?x (length ids)" by (simp add: results_list_def)
  from final_state(3)[OF invx g] rs have d: "dom (results s) = {0..<length ids}" by simp
  from s rl have t: "trace (env s) = trace (env ?x) @ summary (length ids) (results_list s (length ids))"
    by simp
  from act c d t show ?thesis by blast
qed

text \<open>
  Claim C4 at the failing input: a run of the identifiers \<open>1.2\<close>, \<open>abc\<close> and
  \<open>urn:oid:3.4\<close> with two workers against a service that answers every request with
  404 and a body whose \<open>issue\<close> member is not an array. The failure of \<open>abc\<close>, which
  does not normalize, is recorded in its slot. The failure of the fetch for \<open>1.2\<close>
  is not: the \<open>catch\<close> block of its job throws while it builds the console line, the
  exception leaves the job, slot 0 stays empty, the job of \<open>urn:oid:3.4\<close> is still
  in flight with its slot empty, and the command prints \<open>Fatal error:\<close> with the
  message of that exception and ends with code 1, without a summary. Against a
  service that answers 404 without a body, the same run under a schedule that lets
  every job end records the three failures and ends with code 0 after the summary.
\<close>

theorem job_failure_escapes_catch:
  "error_text malformed_404 = Inl (Error ''(oo.issue || []).map is not a function'' None)
   \<and> runJob 5 real_opts ''abc'' odd_gateway
       = Some (Inr (error_result ''abc''
                      (Error (''Could not extract OID from '' @ [CHR 0x27] @ ''abc'' @ [CHR 0x27]) None)),
               emit (ConsoleError (''[abc] Error: Could not extract OID from '' @ [CHR 0x27] @ ''abc''
                                   @ [CHR 0x27])) odd_gateway)
   \<and> observe (runJob 5 real_opts ''1.2'' odd_gateway)
       = Some (Inl (Error ''(oo.issue || []).map is not a function'' None),
               [NetGet ''/ValueSet/1.2/$expand?offset=0&count=2''])
   \<and> outcome (valueset_action 5 real_opts None three_ids [0, 1, 1, 0] odd_gateway)
       = Some (1, [ConsoleError (''[abc] Error: Could not extract OID from '' @ [CHR 0x27] @ ''abc''
                                 @ [CHR 0x27]),
                   NetGet ''/ValueSet/1.2/$expand?offset=0&count=2'',
                   ConsoleError ''Fatal error: (oo.issue || []).map is not a function''])
   \<and> crashed (exec 5 real_opts three_ids [0, 1, 1, 0] (init_sched real_opts three_ids odd_gateway))
       = Some (Error ''(oo.issue || []).map is not a function'' None)
   \<and> workers (exec 5 real_opts three_ids [0, 1, 1, 0] (init_sched real_opts three_ids odd_gateway))
       = [Busy 0, Busy 2]
   \<and> map (results (exec 5 real_opts three_ids [0, 1, 1, 0] (init_sched real_opts three_ids odd_gateway)))
         [0, 1, 2]
       = [None,
          Some (error_result ''abc''
                  (Error (''Could not extract OID from '' @ [CHR 0x27] @ ''abc'' @ [CHR 0x27]) None)),
          None]
   \<and> outcome (valueset_action 5 real_opts None three_ids [0, 1, 1, 0, 1] gateway_down)
       = Some (0, [ConsoleError (''[abc] Error: Could not extract OID from '' @ [CHR 0x27] @ ''abc''
                                 @ [CHR 0x27]),
                   NetGet ''/ValueSet/1.2/$expand?offset=0&count=2'',
                   ConsoleError ''[1.2] Error: Request failed with status code 404'',
                   NetGet ''/ValueSet/3.4/$expand?offset=0&count=2'',
                   ConsoleError ''[urn:oid:3.4] Error: Request failed with status code 404'',
                   ConsoleLog ''Summary:'', ConsoleLog ''  OIDs processed: 3'',
                   ConsoleLog ''  Downloaded: 0'', ConsoleLog ''  Errors: 3''])"
proof -
  let ?x = "exec 5 real_opts three_ids [0, 1, 1, 0] (init_sched real_opts three_ids odd_gateway)"
  have a: "error_text malformed_404 = Inl (Error ''(oo.issue || []).map is not a function'' None)"
    by (simp add: error_text_def operationOutcomeToMessage_def malformed_404_def)
  have b: "runJob 5 real_opts ''abc'' odd_gateway
       = Some (Inr (error_result ''abc''
                      (Error (''Could not extract OID from '' @ [CHR 0x27] @ ''abc'' @ [CHR 0x27]) None)),
               emit (ConsoleError (''[abc] Error: Could not extract OID from '' @ [CHR 0x27] @ ''abc''
                                   @ [CHR 0x27])) odd_gateway)"
    by (simp add: runJob_def job_body_def normalizeVsacId_def match_here_def is_digit_def error_text_def)
  have c: "observe (runJob 5 real_opts ''1.2'' odd_gateway)
       = Some (Inl (Error ''(oo.issue || []).map is not a function'' None),
               [NetGet ''/ValueSet/1.2/$expand?offset=0&count=2''])"
    by (simp add: run_eval observe_def)
  have d: "outcome (valueset_action 5 real_opts None three_ids [0, 1, 1, 0] odd_gateway)
       = Some (1, [ConsoleError (''[abc] Error: Could not extract OID from '' @ [CHR 0x27] @ ''abc''
                                 @ [CHR 0x27]),
                   NetGet ''/ValueSet/1.2/$expand?offset=0&count=2'',
                   ConsoleError ''Fatal error: (oo.issue || []).map is not a function''])"
    by (simp add: run_eval action_eval)
  have e: "crashed ?x = Some (Error ''(oo.issue || []).map is not a function'' None)"
    by (simp add: run_eval)
  have f: "workers ?x = [Busy 0, Busy 2]"
    by (simp add: run_eval)
  have g: "map (results ?x) [0, 1, 2]
       = [None,
          Some (error_result ''abc''
                  (Error (''Could not extract OID from '' @ [CHR 0x27] @ ''abc'' @ [CHR 0x27]) None)),
          None]"
    by (simp add: run_eval)
  have h: "outcome (valueset_action 5 real_opts None three_ids [0, 1, 1, 0, 1] gateway_down)
       = Some (0, [ConsoleError (''[abc] Error: Could not extract OID from '' @ [CHR 0x27] @ ''abc''
                                 @ [CHR 0x27]),
                   NetGet ''/ValueSet/1.2/$expand?offset=0&count=2'',
                   ConsoleError ''[1.2] Error: Request failed with status code 404'',
                   NetGet ''/ValueSet/3.4/$expand?offset=0&count=2'',
                   ConsoleError ''[urn:oid:3.4] Error: Request failed with status code 404'',
                   ConsoleLog ''Summary:'', ConsoleLog ''  OIDs processed: 3'',
                   ConsoleLog ''  Downloaded: 0'', ConsoleLog ''  Errors: 3''])"
    by (simp add: run_eval action_eval)
  from a b c d e f g h show ?thesis by blast
qed

section \<open>The claims on concrete runs\<close>





end
